theory Spec2Isabelle
  imports Main "HOL-Library.Word"
begin

unbundle bit_operations_syntax

section \<open>JavaScript numbers and bitwise operators\<close>

text \<open>
  The offsets, widths and values of the bit engine are JavaScript numbers. The model
  takes the integer-valued ones, as \<open>int\<close>. Every bitwise operator of the language
  converts its operands with ToInt32 (reduction modulo \<open>2 ^ 32\<close>, read as two's
  complement), takes a shift count modulo 32, and yields an int32; \<open>x >>> 0\<close> reads
  the same 32 bits as unsigned.
\<close>

definition toInt32 :: "int \<Rightarrow> 32 word" where
  "toInt32 n = word_of_int n"

definition shiftCount :: "int \<Rightarrow> nat" where
  "shiftCount n = unat (toInt32 n AND 31)"

definition js_and :: "int \<Rightarrow> int \<Rightarrow> int" where
  "js_and a b = sint (toInt32 a AND toInt32 b)"

definition js_or :: "int \<Rightarrow> int \<Rightarrow> int" where
  "js_or a b = sint (toInt32 a OR toInt32 b)"

definition js_xor :: "int \<Rightarrow> int \<Rightarrow> int" where
  "js_xor a b = sint (toInt32 a XOR toInt32 b)"

definition js_not :: "int \<Rightarrow> int" where
  "js_not a = sint (NOT (toInt32 a))"

definition js_shl :: "int \<Rightarrow> int \<Rightarrow> int" where
  "js_shl a n = sint (push_bit (shiftCount n) (toInt32 a))"

definition js_sar :: "int \<Rightarrow> int \<Rightarrow> int" where
  "js_sar a n = sint (signed_drop_bit (shiftCount n) (toInt32 a))"

definition js_ushr0 :: "int \<Rightarrow> int" where
  "js_ushr0 a = uint (toInt32 a)"

section \<open>Uint8Array\<close>

text \<open>
  Reading a typed array outside its range gives \<open>undefined\<close>; the engine only ever
  feeds the element to \<open>>>\<close> or \<open>&\<close>, which convert \<open>undefined\<close> to 0. Writing
  outside the range is ignored; writing inside stores the value modulo 256.
\<close>

definition view_at :: "8 word list \<Rightarrow> int \<Rightarrow> int" where
  "view_at v k = (if 0 \<le> k \<and> k < int (length v) then uint (v ! nat k) else 0)"

definition view_put :: "8 word list \<Rightarrow> int \<Rightarrow> int \<Rightarrow> 8 word list" where
  "view_put v k x = (if 0 \<le> k \<and> k < int (length v) then v[nat k := word_of_int x] else v)"

section \<open>BitView\<close>

datatype error = OutOfRange | EndOfStream

record BitView =
  view :: "8 word list"
  bigEndian :: bool

definition byteLength :: "BitView \<Rightarrow> int" where
  "byteLength bv = int (length (view bv))"

function getBits_loop :: "BitView \<Rightarrow> int \<Rightarrow> int \<Rightarrow> int \<Rightarrow> int \<Rightarrow> int" where
  "getBits_loop bv bits offset i val =
     (if i < bits then
        let remaining = bits - i;
            bitOffset = js_and offset 7;
            currentByte = view_at (view bv) (js_sar offset 3);
            read = min remaining (8 - bitOffset);
            mask = js_not (js_shl 0xFF read)
        in if bigEndian bv then
             let readBits = js_and (js_sar currentByte (8 - read - bitOffset)) mask;
                 val = js_or (js_shl val read) readBits
             in getBits_loop bv bits (offset + read) (i + read) val
           else
             let readBits = js_and (js_sar currentByte bitOffset) mask;
                 val = js_or val (js_shl readBits i)
             in getBits_loop bv bits (offset + read) (i + read) val
      else val)"
  by pat_completeness auto
termination
proof (relation "measure (\<lambda>(bv, bits, offset, i, val). nat (bits - i))", goal_cases)
  case 1
  show ?case by simp
next
  case (2 bv bits offset i val remaining bitOffset currentByte read)
  have "sint (toInt32 offset AND mask 3) = take_bit 3 offset"
    by (rule bit_eqI) (auto simp: bit_simps toInt32_def)
  then have "js_and offset 7 = offset mod 8"
    by (simp add: js_and_def toInt32_def take_bit_eq_mod mask_eq_exp_minus_1)
  moreover have "0 \<le> offset mod 8" "offset mod 8 < 8"
    by simp_all
  ultimately show ?case
    using 2(1-3,5) by (simp add: min_def)
next
  case (3 bv bits offset i val remaining bitOffset currentByte read)
  have "sint (toInt32 offset AND mask 3) = take_bit 3 offset"
    by (rule bit_eqI) (auto simp: bit_simps toInt32_def)
  then have "js_and offset 7 = offset mod 8"
    by (simp add: js_and_def toInt32_def take_bit_eq_mod mask_eq_exp_minus_1)
  moreover have "0 \<le> offset mod 8" "offset mod 8 < 8"
    by simp_all
  ultimately show ?case
    using 3(1-3,5) by (simp add: min_def)
qed

declare getBits_loop.simps [simp del]

definition getBits :: "BitView \<Rightarrow> int \<Rightarrow> int \<Rightarrow> bool \<Rightarrow> error + int" where
  "getBits bv offset bits isSigned =
     (let available = int (length (view bv)) * 8 - offset
      in if bits > available then Inl OutOfRange
         else
           let val = getBits_loop bv bits offset 0 0
           in if isSigned then
                (if bits \<noteq> 32 \<and> js_and val (js_shl 1 (bits - 1)) \<noteq> 0
                 then Inr (js_or val (js_xor (- 1) (js_shl 1 bits - 1)))
                 else Inr val)
              else Inr (js_ushr0 val))"

function setBits_loop :: "BitView \<Rightarrow> int \<Rightarrow> int \<Rightarrow> int \<Rightarrow> int \<Rightarrow> BitView" where
  "setBits_loop bv bits offset val i =
     (if i < bits then
        let remaining = bits - i;
            bitOffset = js_and offset 7;
            byteOffset = js_sar offset 3;
            wrote = min remaining (8 - bitOffset)
        in if bigEndian bv then
             let mask = js_not (js_shl (js_not 0) wrote);
                 writeBits = js_and (js_sar val (bits - i - wrote)) mask;
                 destShift = 8 - bitOffset - wrote;
                 destMask = js_not (js_shl mask destShift);
                 bv' = bv\<lparr>view := view_put (view bv) byteOffset
                         (js_or (js_and (view_at (view bv) byteOffset) destMask)
                                (js_shl writeBits destShift))\<rparr>
             in setBits_loop bv' bits (offset + wrote) val (i + wrote)
           else
             let mask = js_not (js_shl 0xFF wrote);
                 writeBits = js_and val mask;
                 val' = js_sar val wrote;
                 destMask = js_not (js_shl mask bitOffset);
                 bv' = bv\<lparr>view := view_put (view bv) byteOffset
                         (js_or (js_and (view_at (view bv) byteOffset) destMask)
                                (js_shl writeBits bitOffset))\<rparr>
             in setBits_loop bv' bits (offset + wrote) val' (i + wrote)
      else bv)"
  by pat_completeness auto
termination
proof (relation "measure (\<lambda>(bv, bits, offset, val, i). nat (bits - i))", goal_cases)
  case 1
  show ?case by simp
next
  case (2 bv bits offset val i remaining bitOffset byteOffset wrote)
  have "sint (toInt32 offset AND mask 3) = take_bit 3 offset"
    by (rule bit_eqI) (auto simp: bit_simps toInt32_def)
  then have "js_and offset 7 = offset mod 8"
    by (simp add: js_and_def toInt32_def take_bit_eq_mod mask_eq_exp_minus_1)
  moreover have "0 \<le> offset mod 8" "offset mod 8 < 8"
    by simp_all
  ultimately show ?case
    using 2(1-3,5) by (simp add: min_def)
next
  case (3 bv bits offset val i remaining bitOffset byteOffset wrote)
  have "sint (toInt32 offset AND mask 3) = take_bit 3 offset"
    by (rule bit_eqI) (auto simp: bit_simps toInt32_def)
  then have "js_and offset 7 = offset mod 8"
    by (simp add: js_and_def toInt32_def take_bit_eq_mod mask_eq_exp_minus_1)
  moreover have "0 \<le> offset mod 8" "offset mod 8 < 8"
    by simp_all
  ultimately show ?case
    using 3(1-3,5) by (simp add: min_def)
qed

declare setBits_loop.simps [simp del]

text \<open>
  A call that throws is \<open>Inl\<close> of the error; a mutating method returns the engine
  as the call leaves it next to its outcome, so that what a failed call did to the
  buffer is part of the model.
\<close>

definition setBits :: "BitView \<Rightarrow> int \<Rightarrow> int \<Rightarrow> int \<Rightarrow> (error + unit) \<times> BitView" where
  "setBits bv offset val bits =
     (let available = int (length (view bv)) * 8 - offset
      in if bits > available then (Inl OutOfRange, bv)
         else (Inr (), setBits_loop bv bits offset val 0))"

subsection \<open>Fixed-width accessors\<close>

definition getBoolean :: "BitView \<Rightarrow> int \<Rightarrow> error + bool" where
  "getBoolean bv offset =
     (case getBits bv offset 1 False of Inl e \<Rightarrow> Inl e | Inr n \<Rightarrow> Inr (n \<noteq> 0))"

definition getInt8 :: "BitView \<Rightarrow> int \<Rightarrow> error + int" where
  "getInt8 bv offset = getBits bv offset 8 True"

definition getInt16 :: "BitView \<Rightarrow> int \<Rightarrow> error + int" where
  "getInt16 bv offset = getBits bv offset 16 True"

definition getInt32 :: "BitView \<Rightarrow> int \<Rightarrow> error + int" where
  "getInt32 bv offset = getBits bv offset 32 True"

definition getUint8 :: "BitView \<Rightarrow> int \<Rightarrow> error + int" where
  "getUint8 bv offset = getBits bv offset 8 False"

definition getUint16 :: "BitView \<Rightarrow> int \<Rightarrow> error + int" where
  "getUint16 bv offset = getBits bv offset 16 False"

definition getUint32 :: "BitView \<Rightarrow> int \<Rightarrow> error + int" where
  "getUint32 bv offset = getBits bv offset 32 False"

definition setBoolean :: "BitView \<Rightarrow> int \<Rightarrow> bool \<Rightarrow> (error + unit) \<times> BitView" where
  "setBoolean bv offset b = setBits bv offset (if b then 1 else 0) 1"

definition setInt8 :: "BitView \<Rightarrow> int \<Rightarrow> int \<Rightarrow> (error + unit) \<times> BitView" where
  "setInt8 bv offset val = setBits bv offset val 8"

definition setInt16 :: "BitView \<Rightarrow> int \<Rightarrow> int \<Rightarrow> (error + unit) \<times> BitView" where
  "setInt16 bv offset val = setBits bv offset val 16"

definition setInt32 :: "BitView \<Rightarrow> int \<Rightarrow> int \<Rightarrow> (error + unit) \<times> BitView" where
  "setInt32 bv offset val = setBits bv offset val 32"

definition setUint8 :: "BitView \<Rightarrow> int \<Rightarrow> int \<Rightarrow> (error + unit) \<times> BitView" where
  "setUint8 = setInt8"

definition setUint16 :: "BitView \<Rightarrow> int \<Rightarrow> int \<Rightarrow> (error + unit) \<times> BitView" where
  "setUint16 = setInt16"

definition setUint32 :: "BitView \<Rightarrow> int \<Rightarrow> int \<Rightarrow> (error + unit) \<times> BitView" where
  "setUint32 = setInt32"

subsection \<open>Floats through the scratch DataView\<close>

text \<open>
  The engine never computes with a float: it moves the IEEE-754 pattern between the
  buffer and an 8-byte scratch \<open>DataView\<close>, which stores big-endian. A float is
  therefore modelled by its bit pattern, a \<open>32 word\<close> or a \<open>64 word\<close>, and the
  scratch area by its eight bytes. Every accessor writes the scratch bytes it reads
  afterwards, so the scratch contents never flow from one call to the next and the
  model starts each call from a zeroed area.
\<close>

type_synonym float32 = "32 word"
type_synonym float64 = "64 word"

definition scratch0 :: "8 word list" where
  "scratch0 = replicate 8 0"

definition dv_setUint32 :: "8 word list \<Rightarrow> nat \<Rightarrow> int \<Rightarrow> 8 word list" where
  "dv_setUint32 s p x =
     (let w = (word_of_int x :: 32 word)
      in s[p := ucast (drop_bit 24 w), p + 1 := ucast (drop_bit 16 w),
           p + 2 := ucast (drop_bit 8 w), p + 3 := ucast w])"

definition dv_getUint32 :: "8 word list \<Rightarrow> nat \<Rightarrow> int" where
  "dv_getUint32 s p =
     uint (push_bit 24 (ucast (s ! p)) OR push_bit 16 (ucast (s ! (p + 1)))
           OR push_bit 8 (ucast (s ! (p + 2))) OR (ucast (s ! (p + 3)) :: 32 word))"

definition dv_setFloat32 :: "8 word list \<Rightarrow> nat \<Rightarrow> float32 \<Rightarrow> 8 word list" where
  "dv_setFloat32 s p f = dv_setUint32 s p (uint f)"

definition dv_getFloat32 :: "8 word list \<Rightarrow> nat \<Rightarrow> float32" where
  "dv_getFloat32 s p = word_of_int (dv_getUint32 s p)"

definition dv_setFloat64 :: "8 word list \<Rightarrow> nat \<Rightarrow> float64 \<Rightarrow> 8 word list" where
  "dv_setFloat64 s p d =
     dv_setUint32 (dv_setUint32 s p (uint (drop_bit 32 d))) (p + 4) (uint (take_bit 32 d))"

definition dv_getFloat64 :: "8 word list \<Rightarrow> nat \<Rightarrow> float64" where
  "dv_getFloat64 s p =
     push_bit 32 (word_of_int (dv_getUint32 s p)) OR word_of_int (dv_getUint32 s (p + 4))"

definition getFloat32 :: "BitView \<Rightarrow> int \<Rightarrow> error + float32" where
  "getFloat32 bv offset =
     (case getUint32 bv offset of
        Inl e \<Rightarrow> Inl e
      | Inr u \<Rightarrow> Inr (dv_getFloat32 (dv_setUint32 scratch0 0 u) 0))"

definition getFloat64 :: "BitView \<Rightarrow> int \<Rightarrow> error + float64" where
  "getFloat64 bv offset =
     (case getUint32 bv offset of
        Inl e \<Rightarrow> Inl e
      | Inr hi \<Rightarrow>
          (case getUint32 bv (offset + 32) of
             Inl e \<Rightarrow> Inl e
           | Inr lo \<Rightarrow>
               Inr (dv_getFloat64 (dv_setUint32 (dv_setUint32 scratch0 0 hi) 4 lo) 0)))"

definition setFloat32 :: "BitView \<Rightarrow> int \<Rightarrow> float32 \<Rightarrow> (error + unit) \<times> BitView" where
  "setFloat32 bv offset f =
     (let scratch = dv_setFloat32 scratch0 0 f
      in setBits bv offset (dv_getUint32 scratch 0) 32)"

definition setFloat64 :: "BitView \<Rightarrow> int \<Rightarrow> float64 \<Rightarrow> (error + unit) \<times> BitView" where
  "setFloat64 bv offset d =
     (let scratch = dv_setFloat64 scratch0 0 d
      in case setBits bv offset (dv_getUint32 scratch 0) 32 of
           (Inl e, bv') \<Rightarrow> (Inl e, bv')
         | (Inr u, bv') \<Rightarrow> setBits bv' offset (dv_getUint32 scratch 4) 32)"

section \<open>BitStream\<close>

text \<open>
  Several cursors can hold the same engine object, so the engines live in a store and a
  cursor holds the address of its engine. An engine is modelled with the bytes of its
  own \<open>Uint8Array\<close>; the store does not record that two engines can be built over
  one \<open>ArrayBuffer\<close> and then share bytes, so what a write through one engine does to
  the bytes seen through another engine is outside this model. The private fields \<open>_view\<close>,
  \<open>_startIndex\<close>, \<open>_length\<close> and \<open>_index\<close> are the record's fields; the public
  \<open>index\<close> and \<open>length\<close> properties are the getters and setters below.
\<close>

type_synonym heap = "nat \<Rightarrow> BitView"

record BitStream =
  p_view :: nat
  p_startIndex :: int
  p_length :: int
  p_index :: int

text \<open>The constructor, for a source that is already a BitView.\<close>

definition new_BitStream :: "heap \<Rightarrow> nat \<Rightarrow> BitStream" where
  "new_BitStream h source =
     \<lparr>p_view = source, p_startIndex = 0, p_length = byteLength (h source) * 8, p_index = 0\<rparr>"

definition get_index :: "BitStream \<Rightarrow> int" where
  "get_index s = p_index s - p_startIndex s"

definition set_index :: "BitStream \<Rightarrow> int \<Rightarrow> BitStream" where
  "set_index s val = s\<lparr>p_index := val + p_startIndex s\<rparr>"

definition get_length :: "BitStream \<Rightarrow> int" where
  "get_length s = p_length s - p_startIndex s"

definition set_length :: "BitStream \<Rightarrow> int \<Rightarrow> BitStream" where
  "set_length s val = s\<lparr>p_length := val + p_startIndex s\<rparr>"

definition bitsLeft :: "BitStream \<Rightarrow> int" where
  "bitsLeft s = p_length s - p_index s"

text \<open>
  \<open>reader\<close> and \<open>writer\<close> look the engine's method up by name; here the method
  itself is the argument.
\<close>

definition reader ::
  "(BitView \<Rightarrow> int \<Rightarrow> error + 'a) \<Rightarrow> int \<Rightarrow> heap \<Rightarrow> BitStream \<Rightarrow> (error + 'a) \<times> BitStream" where
  "reader name sz h s =
     (if p_index s + sz > p_length s then (Inl EndOfStream, s)
      else case name (h (p_view s)) (p_index s) of
             Inl e \<Rightarrow> (Inl e, s)
           | Inr val \<Rightarrow> (Inr val, s\<lparr>p_index := p_index s + sz\<rparr>))"

definition writer ::
  "(BitView \<Rightarrow> int \<Rightarrow> 'a \<Rightarrow> (error + unit) \<times> BitView) \<Rightarrow> int \<Rightarrow> 'a \<Rightarrow> heap \<Rightarrow> BitStream
     \<Rightarrow> (error + unit) \<times> heap \<times> BitStream" where
  "writer name sz val h s =
     (case name (h (p_view s)) (p_index s) val of
        (Inl e, bv') \<Rightarrow> (Inl e, h(p_view s := bv'), s)
      | (Inr u, bv') \<Rightarrow> (Inr (), h(p_view s := bv'), s\<lparr>p_index := p_index s + sz\<rparr>))"

definition readBits :: "int \<Rightarrow> bool \<Rightarrow> heap \<Rightarrow> BitStream \<Rightarrow> (error + int) \<times> BitStream" where
  "readBits bits isSigned h s =
     (case getBits (h (p_view s)) (p_index s) bits isSigned of
        Inl e \<Rightarrow> (Inl e, s)
      | Inr val \<Rightarrow> (Inr val, s\<lparr>p_index := p_index s + bits\<rparr>))"

definition writeBits :: "int \<Rightarrow> int \<Rightarrow> heap \<Rightarrow> BitStream \<Rightarrow> (error + unit) \<times> heap \<times> BitStream" where
  "writeBits val bits h s =
     (case setBits (h (p_view s)) (p_index s) val bits of
        (Inl e, bv') \<Rightarrow> (Inl e, h(p_view s := bv'), s)
      | (Inr u, bv') \<Rightarrow> (Inr (), h(p_view s := bv'), s\<lparr>p_index := p_index s + bits\<rparr>))"

definition readBoolean :: "heap \<Rightarrow> BitStream \<Rightarrow> (error + bool) \<times> BitStream" where
  "readBoolean = reader getBoolean 1"

definition readInt8 :: "heap \<Rightarrow> BitStream \<Rightarrow> (error + int) \<times> BitStream" where
  "readInt8 = reader getInt8 8"

definition readInt16 :: "heap \<Rightarrow> BitStream \<Rightarrow> (error + int) \<times> BitStream" where
  "readInt16 = reader getInt16 16"

definition readInt32 :: "heap \<Rightarrow> BitStream \<Rightarrow> (error + int) \<times> BitStream" where
  "readInt32 = reader getInt32 32"

definition readUint8 :: "heap \<Rightarrow> BitStream \<Rightarrow> (error + int) \<times> BitStream" where
  "readUint8 = reader getUint8 8"

definition readUint16 :: "heap \<Rightarrow> BitStream \<Rightarrow> (error + int) \<times> BitStream" where
  "readUint16 = reader getUint16 16"

definition readUint32 :: "heap \<Rightarrow> BitStream \<Rightarrow> (error + int) \<times> BitStream" where
  "readUint32 = reader getUint32 32"

definition readFloat32 :: "heap \<Rightarrow> BitStream \<Rightarrow> (error + float32) \<times> BitStream" where
  "readFloat32 = reader getFloat32 32"

definition readFloat64 :: "heap \<Rightarrow> BitStream \<Rightarrow> (error + float64) \<times> BitStream" where
  "readFloat64 = reader getFloat64 64"

definition writeBoolean :: "bool \<Rightarrow> heap \<Rightarrow> BitStream \<Rightarrow> (error + unit) \<times> heap \<times> BitStream" where
  "writeBoolean = writer setBoolean 1"

definition writeInt8 :: "int \<Rightarrow> heap \<Rightarrow> BitStream \<Rightarrow> (error + unit) \<times> heap \<times> BitStream" where
  "writeInt8 = writer setInt8 8"

definition writeInt16 :: "int \<Rightarrow> heap \<Rightarrow> BitStream \<Rightarrow> (error + unit) \<times> heap \<times> BitStream" where
  "writeInt16 = writer setInt16 16"

definition writeInt32 :: "int \<Rightarrow> heap \<Rightarrow> BitStream \<Rightarrow> (error + unit) \<times> heap \<times> BitStream" where
  "writeInt32 = writer setInt32 32"

definition writeUint8 :: "int \<Rightarrow> heap \<Rightarrow> BitStream \<Rightarrow> (error + unit) \<times> heap \<times> BitStream" where
  "writeUint8 = writer setUint8 8"

definition writeUint16 :: "int \<Rightarrow> heap \<Rightarrow> BitStream \<Rightarrow> (error + unit) \<times> heap \<times> BitStream" where
  "writeUint16 = writer setUint16 16"

definition writeUint32 :: "int \<Rightarrow> heap \<Rightarrow> BitStream \<Rightarrow> (error + unit) \<times> heap \<times> BitStream" where
  "writeUint32 = writer setUint32 32"

definition writeFloat32 :: "float32 \<Rightarrow> heap \<Rightarrow> BitStream \<Rightarrow> (error + unit) \<times> heap \<times> BitStream" where
  "writeFloat32 = writer setFloat32 32"

definition writeFloat64 :: "float64 \<Rightarrow> heap \<Rightarrow> BitStream \<Rightarrow> (error + unit) \<times> heap \<times> BitStream" where
  "writeFloat64 = writer setFloat64 64"

definition readBitStream :: "int \<Rightarrow> heap \<Rightarrow> BitStream \<Rightarrow> BitStream \<times> BitStream" where
  "readBitStream bitLength h s =
     (let slice = new_BitStream h (p_view s);
          slice = slice\<lparr>p_startIndex := p_index s\<rparr>;
          slice = slice\<lparr>p_index := p_index s\<rparr>;
          slice = set_length slice bitLength
      in (slice, s\<lparr>p_index := p_index s + bitLength\<rparr>))"

section \<open>String codec\<close>

text \<open>
  A string is its sequence of UTF-16 code units. An optional argument is an
  \<open>option\<close>, \<open>None\<close> for \<open>undefined\<close>. Arithmetic on \<open>undefined\<close> gives NaN, every
  comparison with NaN is false, and NaN is falsy; a number that may be NaN is an
  \<open>int option\<close> too, \<open>None\<close> for NaN.
\<close>

type_synonym js_string = "16 word list"

definition fromCharCode :: "int list \<Rightarrow> js_string" where
  "fromCharCode chars = map word_of_int chars"

text \<open>\<open>charCodeAt\<close> is only called below the string's length; outside it gives NaN,
  which the engine's bitwise operators read as 0.\<close>

definition charCodeAt :: "js_string \<Rightarrow> int \<Rightarrow> int" where
  "charCodeAt str i = (if 0 \<le> i \<and> i < int (length str) then uint (str ! nat i) else 0)"

function readString_loop ::
  "heap \<Rightarrow> bool \<Rightarrow> int \<Rightarrow> BitStream \<Rightarrow> int \<Rightarrow> bool \<Rightarrow> int list \<Rightarrow> (error + int list) \<times> BitStream" where
  "readString_loop h fixedLength bytes stream i append' chars =
     (if i < bytes then
        case readUint8 h stream of
          (Inl e, stream') \<Rightarrow> (Inl e, stream')
        | (Inr c, stream') \<Rightarrow>
            if c = 0x00 then
              if \<not> fixedLength then (Inr chars, stream')
              else readString_loop h fixedLength bytes stream' (i + 1) False chars
            else
              readString_loop h fixedLength bytes stream' (i + 1) append'
                (if append' then chars @ [c] else chars)
      else (Inr chars, stream))"
  by pat_completeness auto
termination
  by (relation "measure (\<lambda>(h, fixedLength, bytes, stream, i, append', chars). nat (bytes - i))")
    auto

declare readString_loop.simps [simp del]

text \<open>
  \<open>decodeURIComponent(escape(string))\<close> belongs to the host; it is the parameter
  \<open>decode\<close>, \<open>None\<close> where it throws.
\<close>

definition readString ::
  "(js_string \<Rightarrow> js_string option) \<Rightarrow> heap \<Rightarrow> BitStream \<Rightarrow> int \<Rightarrow> int option \<Rightarrow> bool \<Rightarrow> int option
     \<Rightarrow> (error + js_string) \<times> BitStream" where
  "readString decode h stream len index utf8 bytes =
     (if bytes = Some 0 then (Inr [], stream)
      else
        let fixedLength = (case bytes of None \<Rightarrow> False | Some b \<Rightarrow> b \<noteq> 0);
            bytes = (case bytes of
                       Some b \<Rightarrow> Some b
                     | None \<Rightarrow> (case index of None \<Rightarrow> None | Some ix \<Rightarrow> Some (len - ix)))
        in case (case bytes of
                   None \<Rightarrow> (Inr [], stream)
                 | Some b \<Rightarrow> readString_loop h fixedLength b stream 0 True []) of
             (Inl e, stream') \<Rightarrow> (Inl e, stream')
           | (Inr chars, stream') \<Rightarrow>
               let string = fromCharCode chars
               in if utf8 then
                    (case decode string of
                       Some decoded \<Rightarrow> (Inr decoded, stream')
                     | None \<Rightarrow> (Inr string, stream'))
                  else (Inr string, stream'))"

definition utf8_bytes :: "int \<Rightarrow> int list" where
  "utf8_bytes unicode =
     (if unicode \<le> 0x7f then [unicode]
      else if unicode \<le> 0x7ff then
        [js_or (js_sar unicode 6) 0xc0, js_or (js_and unicode 0x3F) 0x80]
      else if unicode \<le> 0xffff then
        [js_or (js_sar unicode 12) 0xe0,
         js_or (js_and (js_sar unicode 6) 0x3f) 0x80,
         js_or (js_and unicode 0x3f) 0x80]
      else
        [js_or (js_sar unicode 18) 0xf0,
         js_or (js_and (js_sar unicode 12) 0x3f) 0x80,
         js_or (js_and (js_sar unicode 6) 0x3f) 0x80,
         js_or (js_and unicode 0x3f) 0x80])"

primrec stringToByteArray_from :: "int list \<Rightarrow> js_string \<Rightarrow> int list" where
  "stringToByteArray_from b [] = b"
| "stringToByteArray_from b (c # str) = stringToByteArray_from (b @ utf8_bytes (uint c)) str"

definition stringToByteArray :: "js_string \<Rightarrow> int list" where
  "stringToByteArray str = stringToByteArray_from [] str"

definition readASCIIString ::
  "(js_string \<Rightarrow> js_string option) \<Rightarrow> heap \<Rightarrow> BitStream \<Rightarrow> int \<Rightarrow> int option \<Rightarrow> int option
     \<Rightarrow> (error + js_string) \<times> BitStream" where
  "readASCIIString decode h stream len index bytes =
     readString decode h stream len index False bytes"

definition readUTF8String ::
  "(js_string \<Rightarrow> js_string option) \<Rightarrow> heap \<Rightarrow> BitStream \<Rightarrow> int \<Rightarrow> int option \<Rightarrow> int option
     \<Rightarrow> (error + js_string) \<times> BitStream" where
  "readUTF8String decode h stream len index bytes =
     readString decode h stream len index True bytes"

function writeASCIIString_loop ::
  "js_string \<Rightarrow> int \<Rightarrow> int \<Rightarrow> heap \<Rightarrow> BitStream \<Rightarrow> (error + unit) \<times> heap \<times> BitStream" where
  "writeASCIIString_loop string len i h stream =
     (if i < len then
        case writeUint8 (if i < int (length string) then charCodeAt string i else 0x00) h stream of
          (Inl e, h', stream') \<Rightarrow> (Inl e, h', stream')
        | (Inr u, h', stream') \<Rightarrow> writeASCIIString_loop string len (i + 1) h' stream'
      else (Inr (), h, stream))"
  by pat_completeness auto
termination
  by (relation "measure (\<lambda>(string, len, i, h, stream). nat (len - i))") auto

declare writeASCIIString_loop.simps [simp del]

definition writeASCIIString ::
  "heap \<Rightarrow> BitStream \<Rightarrow> js_string \<Rightarrow> int option \<Rightarrow> (error + unit) \<times> heap \<times> BitStream" where
  "writeASCIIString h stream string bytes =
     (let b = (case bytes of None \<Rightarrow> 0 | Some b \<Rightarrow> b);
          len = (if b \<noteq> 0 then b else int (length string) + 1)
      in writeASCIIString_loop string len 0 h stream)"

function writeUTF8String_loop ::
  "int list \<Rightarrow> int \<Rightarrow> int \<Rightarrow> heap \<Rightarrow> BitStream \<Rightarrow> (error + unit) \<times> heap \<times> BitStream" where
  "writeUTF8String_loop byteArray len i h stream =
     (if i < len then
        case writeUint8 (if i < int (length byteArray) then byteArray ! nat i else 0x00) h stream of
          (Inl e, h', stream') \<Rightarrow> (Inl e, h', stream')
        | (Inr u, h', stream') \<Rightarrow> writeUTF8String_loop byteArray len (i + 1) h' stream'
      else (Inr (), h, stream))"
  by pat_completeness auto
termination
  by (relation "measure (\<lambda>(byteArray, len, i, h, stream). nat (len - i))") auto

declare writeUTF8String_loop.simps [simp del]

definition writeUTF8String ::
  "heap \<Rightarrow> BitStream \<Rightarrow> js_string \<Rightarrow> int option \<Rightarrow> (error + unit) \<times> heap \<times> BitStream" where
  "writeUTF8String h stream string bytes =
     (let byteArray = stringToByteArray string;
          b = (case bytes of None \<Rightarrow> 0 | Some b \<Rightarrow> b);
          len = (if b \<noteq> 0 then b else int (length byteArray) + 1)
      in writeUTF8String_loop byteArray len 0 h stream)"

subsection \<open>The cursor's string methods\<close>

text \<open>
  The methods of BitStream call the codec with the cursor and their own arguments:
  \<open>readASCIIString(this, bytes)\<close> fills the codec's first two parameters and leaves
  \<open>index\<close> and \<open>bytes\<close> undefined.
\<close>

definition BitStream_readASCIIString ::
  "(js_string \<Rightarrow> js_string option) \<Rightarrow> int \<Rightarrow> heap \<Rightarrow> BitStream \<Rightarrow> (error + js_string) \<times> BitStream" where
  "BitStream_readASCIIString decode bytes h s = readASCIIString decode h s bytes None None"

definition BitStream_readUTF8String ::
  "(js_string \<Rightarrow> js_string option) \<Rightarrow> int \<Rightarrow> heap \<Rightarrow> BitStream \<Rightarrow> (error + js_string) \<times> BitStream" where
  "BitStream_readUTF8String decode bytes h s = readUTF8String decode h s bytes None None"

definition BitStream_writeASCIIString ::
  "js_string \<Rightarrow> int option \<Rightarrow> heap \<Rightarrow> BitStream \<Rightarrow> (error + unit) \<times> heap \<times> BitStream" where
  "BitStream_writeASCIIString string bytes h s = writeASCIIString h s string bytes"

definition BitStream_writeUTF8String ::
  "js_string \<Rightarrow> int option \<Rightarrow> heap \<Rightarrow> BitStream \<Rightarrow> (error + unit) \<times> heap \<times> BitStream" where
  "BitStream_writeUTF8String string bytes h s = writeUTF8String h s string bytes"

section \<open>Bit addresses\<close>

text \<open>
  The bit of the buffer that the engine addresses by the bit offset \<open>p\<close>: it lies in
  byte \<open>p div 8\<close>; in little-endian mode it is bit \<open>p mod 8\<close> of that byte, counted
  from the least significant one, in big-endian mode it is counted from the most
  significant one.
\<close>

definition bit_at :: "BitView \<Rightarrow> int \<Rightarrow> bool" where
  "bit_at bv p =
     bit (view bv ! nat (p div 8)) (if bigEndian bv then 7 - nat (p mod 8) else nat (p mod 8))"

section \<open>Writing a byte sequence\<close>

text \<open>
  The specification of the string writers: the bytes of a sequence written through
  the cursor one after the other, each as an unsigned 8-bit integer, up to the first
  write that fails.
\<close>

primrec writeUint8_each :: "int list \<Rightarrow> heap \<Rightarrow> BitStream \<Rightarrow> (error + unit) \<times> heap \<times> BitStream" where
  "writeUint8_each [] h stream = (Inr (), h, stream)"
| "writeUint8_each (b # bs) h stream =
     (case writeUint8 b h stream of
        (Inl e, h', stream') \<Rightarrow> (Inl e, h', stream')
      | (Inr u, h', stream') \<Rightarrow> writeUint8_each bs h' stream')"

section \<open>Bitwise operators on words\<close>

text \<open>
  On operands in range, each operator of the language is the word operation of the
  same name on the ToInt32 images.
\<close>

lemma toInt32_sint [simp]: "toInt32 (sint w) = w"
  by (simp add: toInt32_def)

lemma toInt32_js_and [simp]: "toInt32 (js_and a b) = toInt32 a AND toInt32 b"
  by (simp add: js_and_def)

lemma toInt32_js_or [simp]: "toInt32 (js_or a b) = toInt32 a OR toInt32 b"
  by (simp add: js_or_def)

lemma toInt32_js_xor [simp]: "toInt32 (js_xor a b) = toInt32 a XOR toInt32 b"
  by (simp add: js_xor_def)

lemma toInt32_js_not [simp]: "toInt32 (js_not a) = NOT (toInt32 a)"
  by (simp add: js_not_def)

lemma shiftCount_nat: "0 \<le> n \<Longrightarrow> n < 32 \<Longrightarrow> shiftCount n = nat n"
proof -
  assume n: "0 \<le> n" "n < 32"
  have "(31 :: 32 word) = mask 5"
    by (simp add: mask_eq_exp_minus_1)
  moreover have "uint (toInt32 n AND mask 5) = take_bit 5 n"
    by (rule bit_eqI) (auto simp: bit_simps toInt32_def)
  moreover have "take_bit 5 n = n"
    using n by (simp add: take_bit_eq_mod)
  ultimately show ?thesis
    by (simp add: shiftCount_def unat_eq_nat_uint)
qed

lemma toInt32_js_shl [simp]:
  "0 \<le> n \<Longrightarrow> n < 32 \<Longrightarrow> toInt32 (js_shl a n) = push_bit (nat n) (toInt32 a)"
  by (simp add: js_shl_def shiftCount_nat)

lemma toInt32_js_sar [simp]:
  "0 \<le> n \<Longrightarrow> n < 32 \<Longrightarrow> toInt32 (js_sar a n) = signed_drop_bit (nat n) (toInt32 a)"
  by (simp add: js_sar_def shiftCount_nat)

lemma toInt32_uint8 [simp]: "toInt32 (uint (b :: 8 word)) = ucast b"
  by (simp add: toInt32_def)

lemma toInt32_255 [simp]: "toInt32 255 = mask 8"
  by (simp add: toInt32_def mask_eq_exp_minus_1)

lemma toInt32_0 [simp]: "toInt32 0 = 0"
  by (simp add: toInt32_def)

lemma scast_32_8: "(scast (w :: 32 word) :: 8 word) = ucast w"
  by (rule bit_word_eqI) (auto simp: bit_simps)

lemma to8_js_or: "(word_of_int (js_or a b) :: 8 word) = ucast (toInt32 a OR toInt32 b)"
  by (simp add: js_or_def scast_32_8)

subsection \<open>Masks and splicing bits into a byte\<close>

lemma le_mask_bit: "k < 8 \<Longrightarrow> bit (NOT (push_bit w (mask 8 :: 32 word))) k \<longleftrightarrow> k < w"
  by (auto simp: bit_simps)

lemma insert_bits:
  fixes old :: "8 word" and M V :: "32 word"
  assumes k: "k < 8" and M: "\<And>j. j < 8 \<Longrightarrow> bit M j \<longleftrightarrow> j < w"
  shows "bit (ucast ((ucast old AND NOT (push_bit b M)) OR push_bit b (V AND M)) :: 8 word) k
         \<longleftrightarrow> (if b \<le> k \<and> k < b + w then bit V (k - b) else bit old k)"
proof (cases "b \<le> k")
  case True
  with k have "k - b < 8" by simp
  then have "bit M (k - b) \<longleftrightarrow> k - b < w" by (rule M)
  with True k show ?thesis
    by (auto simp: bit_simps)
next
  case False
  with k show ?thesis
    by (auto simp: bit_simps)
qed

subsection \<open>Byte index and bit offset\<close>

text \<open>
  \<open>offset & 7\<close> is \<open>offset mod 8\<close> for every integer; \<open>offset >> 3\<close> is
  \<open>offset div 8\<close> only below \<open>2 ^ 31\<close>.
\<close>

lemma js_and_7_mod: "js_and a 7 = a mod 8"
proof -
  have "sint (toInt32 a AND mask 3) = take_bit 3 a"
    by (rule bit_eqI) (auto simp: bit_simps toInt32_def)
  then show ?thesis
    by (simp add: js_and_def toInt32_def take_bit_eq_mod mask_eq_exp_minus_1)
qed

lemma sint_toInt32: "- (2 ^ 31) \<le> n \<Longrightarrow> n < 2 ^ 31 \<Longrightarrow> sint (toInt32 n) = n"
  by (simp add: toInt32_def signed_of_int signed_take_bit_int_eq_self)

lemma js_sar_3_div: "0 \<le> n \<Longrightarrow> n < 2 ^ 31 \<Longrightarrow> js_sar n 3 = n div 8"
proof -
  assume n: "0 \<le> n" "n < 2 ^ 31"
  have "sint (signed_drop_bit 3 (toInt32 n)) = drop_bit 3 (sint (toInt32 n))"
    by (simp add: sint_signed_drop_bit_eq)
  also have "sint (toInt32 n) = n"
    using n by (simp add: sint_toInt32)
  finally show ?thesis
    by (simp add: js_sar_def shiftCount_nat drop_bit_eq_div)
qed

lemma chunk_position:
  fixes offset p wr :: int
  assumes "offset mod 8 + wr \<le> 8"
  shows "(p div 8 = offset div 8 \<and> offset mod 8 \<le> p mod 8 \<and> p mod 8 < offset mod 8 + wr)
         \<longleftrightarrow> (offset \<le> p \<and> p < offset + wr)"
proof -
  define q b q' k where "q = offset div 8" and "b = offset mod 8"
    and "q' = p div 8" and "k = p mod 8"
  have o: "offset = 8 * q + b" and p: "p = 8 * q' + k"
    by (simp_all add: q_def b_def q'_def k_def)
  have r: "0 \<le> b" "b < 8" "0 \<le> k" "k < 8"
    by (simp_all add: b_def k_def)
  from assms have w: "b + wr \<le> 8"
    by (simp add: b_def)
  have "q' = q" if "8 * q + b \<le> 8 * q' + k" "8 * q' + k < 8 * q + b + wr"
    using that r w by arith
  then have "(q' = q \<and> b \<le> k \<and> k < b + wr) \<longleftrightarrow> (8 * q + b \<le> 8 * q' + k \<and> 8 * q' + k < 8 * q + b + wr)"
    by auto
  then show ?thesis
    by (simp add: q_def b_def q'_def k_def)
qed

lemma byte_index:
  assumes "0 \<le> offset" "offset < 8 * int (length v)"
  shows "nat (offset div 8) < length v" "0 \<le> offset div 8" "offset div 8 < int (length v)"
  using assms by auto

lemma same_byte_iff: "0 \<le> p \<Longrightarrow> 0 \<le> offset \<Longrightarrow> nat (p div 8) = nat (offset div 8) \<longleftrightarrow> p div 8 = offset div 8"
  by (simp add: nat_eq_iff pos_imp_zdiv_nonneg_iff)

subsection \<open>One chunk of a write\<close>

lemma set_step_LE:
  assumes le: "\<not> bigEndian bv"
    and off: "0 \<le> offset" "offset < 8 * int (length (view bv))"
    and wr: "0 \<le> wr" "offset mod 8 + wr \<le> 8"
    and p: "0 \<le> p"
    and bv1: "bv1 = bv\<lparr>view := view_put (view bv) (offset div 8)
             (js_or (js_and (view_at (view bv) (offset div 8))
                            (js_not (js_shl (js_not (js_shl 255 wr)) (offset mod 8))))
                    (js_shl (js_and val (js_not (js_shl 255 wr))) (offset mod 8)))\<rparr>"
  shows "bit_at bv1 p
         = (if offset \<le> p \<and> p < offset + wr then bit (toInt32 val) (nat (p - offset))
            else bit_at bv p)"
proof -
  define idx b w where "idx = nat (offset div 8)" and "b = nat (offset mod 8)" and "w = nat wr"
  define old where "old = view bv ! idx"
  define M :: "32 word" where "M = NOT (push_bit w (mask 8))"
  define nb :: "8 word" where
    "nb = ucast ((ucast old AND NOT (push_bit b M)) OR push_bit b (toInt32 val AND M))"
  have idx: "idx < length (view bv)" "0 \<le> offset div 8" "offset div 8 < int (length (view bv))"
    using byte_index [OF off] by (simp_all add: idx_def)
  have b: "offset mod 8 = int b" "b < 8" and w: "wr = int w" "b + w \<le> 8"
    using wr by (simp_all add: b_def w_def nat_less_iff)
  have mask: "toInt32 (js_not (js_shl 255 wr)) = M"
    using w by (simp add: M_def)
  have va: "view_at (view bv) (offset div 8) = uint old"
    using idx by (simp add: view_at_def old_def idx_def)
  have "word_of_int (js_or (js_and (view_at (view bv) (offset div 8))
                            (js_not (js_shl (js_not (js_shl 255 wr)) (offset mod 8))))
                    (js_shl (js_and val (js_not (js_shl 255 wr))) (offset mod 8))) = nb"
    unfolding to8_js_or va using b w by (simp add: nb_def M_def)
  then have view1: "view bv1 = (view bv)[idx := nb]" and be1: "\<not> bigEndian bv1"
    using idx le by (simp_all add: bv1 view_put_def idx_def)
  have Mbit: "bit M j \<longleftrightarrow> j < w" if "j < 8" for j
    using that by (simp add: M_def le_mask_bit)
  show ?thesis
  proof (cases "p div 8 = offset div 8")
    case True
    then have same: "nat (p div 8) = idx"
      by (simp add: idx_def)
    define k where "k = nat (p mod 8)"
    have k: "k < 8" "p mod 8 = int k"
      by (simp_all add: k_def nat_less_iff)
    have "bit_at bv1 p = bit nb k"
      using idx by (simp add: bit_at_def be1 view1 same k_def)
    also have "\<dots> = (if b \<le> k \<and> k < b + w then bit (toInt32 val) (k - b) else bit old k)"
      unfolding nb_def by (rule insert_bits [OF k(1) Mbit])
    also have "bit old k = bit_at bv p"
      using le by (simp add: bit_at_def old_def same k_def)
    also have "b \<le> k \<and> k < b + w \<longleftrightarrow> offset \<le> p \<and> p < offset + wr"
    proof -
      have "int k < int b + int w \<longleftrightarrow> k < b + w"
        by linarith
      with chunk_position [OF wr(2), of p] True b k w show ?thesis
        by simp
    qed
    finally have *: "bit_at bv1 p
        = (if offset \<le> p \<and> p < offset + wr then bit (toInt32 val) (k - b) else bit_at bv p)" .
    have "p = 8 * (p div 8) + p mod 8" "offset = 8 * (offset div 8) + offset mod 8"
      by simp_all
    with True have "p - offset = int k - int b"
      using b(1) k(2) by linarith
    then have "nat (p - offset) = k - b"
      by simp
    with * show ?thesis
      by simp
  next
    case False
    then have "nat (p div 8) \<noteq> idx"
      using p off(1) by (simp add: idx_def same_byte_iff)
    then have "bit_at bv1 p = bit_at bv p"
      using le by (simp add: bit_at_def be1 view1)
    moreover have "\<not> (offset \<le> p \<and> p < offset + wr)"
      using chunk_position [OF wr(2), of p] False by simp
    ultimately show ?thesis
      by auto
  qed
qed

lemma set_step_BE:
  assumes be: "bigEndian bv"
    and off: "0 \<le> offset" "offset < 8 * int (length (view bv))"
    and wr: "0 \<le> wr" "offset mod 8 + wr \<le> 8"
    and p: "0 \<le> p"
    and bv1: "bv1 = bv\<lparr>view := view_put (view bv) (offset div 8)
             (js_or (js_and (view_at (view bv) (offset div 8))
                            (js_not (js_shl (js_not (js_shl (js_not 0) wr)) (8 - offset mod 8 - wr))))
                    (js_shl (js_and x (js_not (js_shl (js_not 0) wr))) (8 - offset mod 8 - wr)))\<rparr>"
  shows "bit_at bv1 p
         = (if offset \<le> p \<and> p < offset + wr then bit (toInt32 x) (nat (offset + wr - 1 - p))
            else bit_at bv p)"
proof -
  define idx b w where "idx = nat (offset div 8)" and "b = nat (offset mod 8)" and "w = nat wr"
  define ds where "ds = 8 - b - w"
  define old where "old = view bv ! idx"
  define M :: "32 word" where "M = NOT (push_bit w (NOT 0))"
  define nb :: "8 word" where
    "nb = ucast ((ucast old AND NOT (push_bit ds M)) OR push_bit ds (toInt32 x AND M))"
  have idx: "idx < length (view bv)" "0 \<le> offset div 8" "offset div 8 < int (length (view bv))"
    using byte_index [OF off] by (simp_all add: idx_def)
  have b: "offset mod 8 = int b" "b < 8" and w: "wr = int w" "b + w \<le> 8"
    using wr by (simp_all add: b_def w_def nat_less_iff)
  have ds: "8 - offset mod 8 - wr = int ds" "ds < 32" "ds + w \<le> 8"
    using b w by (simp_all add: ds_def)
  have va: "view_at (view bv) (offset div 8) = uint old"
    using idx by (simp add: view_at_def old_def idx_def)
  have "word_of_int (js_or (js_and (view_at (view bv) (offset div 8))
                            (js_not (js_shl (js_not (js_shl (js_not 0) wr)) (8 - offset mod 8 - wr))))
                    (js_shl (js_and x (js_not (js_shl (js_not 0) wr))) (8 - offset mod 8 - wr))) = nb"
    unfolding to8_js_or va ds(1) using ds(2) w by (simp add: nb_def M_def)
  then have view1: "view bv1 = (view bv)[idx := nb]" and be1: "bigEndian bv1"
    using idx be by (simp_all add: bv1 view_put_def idx_def)
  have Mbit: "bit M j \<longleftrightarrow> j < w" if "j < 8" for j
    using that by (simp add: M_def bit_simps)
  show ?thesis
  proof (cases "p div 8 = offset div 8")
    case True
    then have same: "nat (p div 8) = idx"
      by (simp add: idx_def)
    define km where "km = nat (p mod 8)"
    define k where "k = 7 - km"
    have km: "km < 8" "p mod 8 = int km"
      by (simp_all add: km_def nat_less_iff)
    have k: "k < 8"
      by (simp add: k_def)
    have "bit_at bv1 p = bit nb k"
      using idx by (simp add: bit_at_def be1 view1 same k_def km_def)
    also have "\<dots> = (if ds \<le> k \<and> k < ds + w then bit (toInt32 x) (k - ds) else bit old k)"
      unfolding nb_def by (rule insert_bits [OF k Mbit])
    also have "bit old k = bit_at bv p"
      using be by (simp add: bit_at_def old_def same k_def km_def)
    also have "ds \<le> k \<and> k < ds + w \<longleftrightarrow> offset \<le> p \<and> p < offset + wr"
    proof -
      have "ds \<le> k \<and> k < ds + w \<longleftrightarrow> int b \<le> int km \<and> int km < int b + int w"
        using km(1) b(2) w(2) by (auto simp: ds_def k_def)
      with chunk_position [OF wr(2), of p] True b km w show ?thesis
        by simp
    qed
    finally have *: "bit_at bv1 p
        = (if offset \<le> p \<and> p < offset + wr then bit (toInt32 x) (k - ds) else bit_at bv p)" .
    have "p = 8 * (p div 8) + p mod 8" "offset = 8 * (offset div 8) + offset mod 8"
      by simp_all
    with True have "p - offset = int km - int b"
      using b(1) km(2) by linarith
    then have "offset \<le> p \<Longrightarrow> p < offset + wr \<Longrightarrow> nat (offset + wr - 1 - p) = k - ds"
      using km(1) b(2) w by (simp add: k_def ds_def)
    with * show ?thesis
      by simp
  next
    case False
    then have "nat (p div 8) \<noteq> idx"
      using p off(1) by (simp add: idx_def same_byte_iff)
    then have "bit_at bv1 p = bit_at bv p"
      using be by (simp add: bit_at_def be1 view1)
    moreover have "\<not> (offset \<le> p \<and> p < offset + wr)"
      using chunk_position [OF wr(2), of p] False by simp
    ultimately show ?thesis
      by auto
  qed
qed

subsection \<open>One chunk of a read\<close>

lemma extract_bits:
  fixes old :: "8 word"
  assumes "s + rd \<le> 8"
  shows "bit (signed_drop_bit s (ucast old :: 32 word) AND NOT (push_bit rd (mask 8))) j
         \<longleftrightarrow> j < rd \<and> bit old (s + j)"
  using assms by (auto simp: bit_simps dest: bit_imp_le_length)

lemma bit_at_chunk:
  assumes "0 \<le> offset" "0 \<le> j" "offset mod 8 + j < 8"
  shows "bit_at bv (offset + j)
         = bit (view bv ! nat (offset div 8))
               (if bigEndian bv then 7 - nat (offset mod 8 + j) else nat (offset mod 8 + j))"
proof -
  have "offset = 8 * (offset div 8) + offset mod 8"
    by simp
  then have e: "offset + j = 8 * (offset div 8) + (offset mod 8 + j)"
    by linarith
  have r: "0 \<le> offset mod 8 + j"
    using assms(2) by simp
  have "(offset + j) div 8 = offset div 8"
    by (rule int_div_pos_eq [OF e r assms(3)])
  moreover have "(offset + j) mod 8 = offset mod 8 + j"
    by (rule int_mod_pos_eq [OF e r assms(3)])
  ultimately show ?thesis
    by (simp add: bit_at_def)
qed

lemma get_step_LE:
  assumes le: "\<not> bigEndian bv"
    and off: "0 \<le> offset" "offset < 8 * int (length (view bv))"
    and rd: "0 \<le> rd" "offset mod 8 + rd \<le> 8"
    and i: "0 \<le> i" "i < 32"
  shows "bit (toInt32 (js_or val (js_shl (js_and (js_sar (view_at (view bv) (offset div 8)) (offset mod 8))
                                             (js_not (js_shl 255 rd))) i))) k
         \<longleftrightarrow> bit (toInt32 val) k \<or> (i \<le> int k \<and> int k < i + rd \<and> k < 32 \<and> bit_at bv (offset + (int k - i)))"
proof -
  define idx b r n where "idx = nat (offset div 8)" and "b = nat (offset mod 8)"
    and "r = nat rd" and "n = nat i"
  define old where "old = view bv ! idx"
  have idx: "idx < length (view bv)" "0 \<le> offset div 8" "offset div 8 < int (length (view bv))"
    using byte_index [OF off] by (simp_all add: idx_def)
  have b: "offset mod 8 = int b" "b < 8" and r: "rd = int r" "b + r \<le> 8" and n: "i = int n" "n < 32"
    using rd i by (simp_all add: b_def r_def n_def nat_less_iff)
  have va: "view_at (view bv) (offset div 8) = uint old"
    using idx by (simp add: view_at_def old_def idx_def)
  define y :: "32 word" where "y = signed_drop_bit b (ucast old) AND NOT (push_bit r (mask 8))"
  have y: "bit y j \<longleftrightarrow> j < r \<and> bit old (b + j)" for j
    unfolding y_def by (rule extract_bits [OF r(2)])
  have "toInt32 (js_and (js_sar (view_at (view bv) (offset div 8)) (offset mod 8))
                                             (js_not (js_shl 255 rd))) = y"
    unfolding va b(1) r(1) using b(2) r(2) by (simp add: y_def)
  then have "toInt32 (js_or val (js_shl (js_and (js_sar (view_at (view bv) (offset div 8)) (offset mod 8))
                                             (js_not (js_shl 255 rd))) i))
        = toInt32 val OR push_bit n y"
    unfolding n(1) using n(2) by simp
  then have "bit (toInt32 (js_or val (js_shl (js_and (js_sar (view_at (view bv) (offset div 8)) (offset mod 8))
                                             (js_not (js_shl 255 rd))) i))) k
     \<longleftrightarrow> bit (toInt32 val) k \<or> (n \<le> k \<and> k < 32 \<and> k - n < r \<and> bit old (b + (k - n)))"
    by (simp add: bit_simps y)
  moreover have "bit_at bv (offset + (int k - i)) = bit old (b + (k - n))"
    if "n \<le> k" "k - n < r"
  proof -
    have "offset mod 8 + (int k - i) < 8" "0 \<le> int k - i"
      using that b r n by simp_all
    from bit_at_chunk [OF off(1) this(2) this(1)] show ?thesis
      using le that by (simp add: old_def idx_def b(1) n(1) nat_add_distrib nat_diff_distrib')
  qed
  moreover have "(n \<le> k \<and> k - n < r) \<longleftrightarrow> (i \<le> int k \<and> int k < i + rd)"
    unfolding n(1) r(1) by auto
  ultimately show ?thesis
    by auto
qed

lemma get_step_BE:
  assumes be: "bigEndian bv"
    and off: "0 \<le> offset" "offset < 8 * int (length (view bv))"
    and rd: "0 \<le> rd" "offset mod 8 + rd \<le> 8"
  shows "bit (toInt32 (js_or (js_shl val rd)
                  (js_and (js_sar (view_at (view bv) (offset div 8)) (8 - rd - offset mod 8))
                          (js_not (js_shl 255 rd))))) k
         \<longleftrightarrow> (if int k < rd then bit_at bv (offset + (rd - 1 - int k))
              else k < 32 \<and> bit (toInt32 val) (k - nat rd))"
proof -
  define idx b r where "idx = nat (offset div 8)" and "b = nat (offset mod 8)" and "r = nat rd"
  define s where "s = 8 - r - b"
  define old where "old = view bv ! idx"
  have idx: "idx < length (view bv)" "0 \<le> offset div 8" "offset div 8 < int (length (view bv))"
    using byte_index [OF off] by (simp_all add: idx_def)
  have b: "offset mod 8 = int b" "b < 8" and r: "rd = int r" "b + r \<le> 8"
    using rd by (simp_all add: b_def r_def nat_less_iff)
  have s: "8 - rd - offset mod 8 = int s" "s < 32" "s + r \<le> 8"
    using b r by (simp_all add: s_def)
  have va: "view_at (view bv) (offset div 8) = uint old"
    using idx by (simp add: view_at_def old_def idx_def)
  define y :: "32 word" where "y = signed_drop_bit s (ucast old) AND NOT (push_bit r (mask 8))"
  have y: "bit y j \<longleftrightarrow> j < r \<and> bit old (s + j)" for j
    unfolding y_def by (rule extract_bits [OF s(3)])
  have "toInt32 (js_and (js_sar (view_at (view bv) (offset div 8)) (8 - rd - offset mod 8))
                          (js_not (js_shl 255 rd))) = y"
    unfolding va s(1) using s(2) r by (simp add: y_def)
  then have "toInt32 (js_or (js_shl val rd)
                  (js_and (js_sar (view_at (view bv) (offset div 8)) (8 - rd - offset mod 8))
                          (js_not (js_shl 255 rd))))
        = push_bit r (toInt32 val) OR y"
    unfolding r(1) using r(2) by simp
  then have *: "bit (toInt32 (js_or (js_shl val rd)
                  (js_and (js_sar (view_at (view bv) (offset div 8)) (8 - rd - offset mod 8))
                          (js_not (js_shl 255 rd))))) k
     \<longleftrightarrow> (if k < r then bit old (s + k) else k < 32 \<and> bit (toInt32 val) (k - r))"
    by (auto simp: bit_simps y)
  have at: "bit_at bv (offset + (rd - 1 - int k)) = bit old (s + k)" if "k < r"
  proof -
    have "offset mod 8 + (rd - 1 - int k) < 8" "0 \<le> rd - 1 - int k"
      using that b r by simp_all
    from bit_at_chunk [OF off(1) this(2) this(1)]
    have "bit_at bv (offset + (rd - 1 - int k)) = bit old (7 - nat (int b + (int r - 1 - int k)))"
      using be by (simp add: old_def idx_def b(1) r(1))
    moreover have "7 - nat (int b + (int r - 1 - int k)) = s + k"
      using that b r by (simp add: s_def)
    ultimately show ?thesis
      by simp
  qed
  have kr: "k < r \<longleftrightarrow> int k < rd"
    unfolding r(1) by simp
  have rn: "nat rd = r"
    by (simp add: r_def)
  show ?thesis
  proof (cases "k < r")
    case True
    with * at kr show ?thesis
      by (simp only: rn if_True)
  next
    case False
    with * kr show ?thesis
      by (simp only: rn if_False)
  qed
qed

section \<open>What the write loop does to the buffer\<close>

lemma length_view_put [simp]: "length (view_put v k x) = length v"
  by (simp add: view_put_def)

lemma chunk_size:
  fixes offset :: int
  assumes "i < bits"
  shows "1 \<le> min (bits - i) (8 - offset mod 8)" "offset mod 8 + min (bits - i) (8 - offset mod 8) \<le> 8"
    "min (bits - i) (8 - offset mod 8) \<le> bits - i" "min (bits - i) (8 - offset mod 8) \<le> 8"
proof -
  define b where "b = offset mod 8"
  have "0 \<le> b" "b < 8"
    by (simp_all add: b_def)
  with assms have "1 \<le> min (bits - i) (8 - b)" "b + min (bits - i) (8 - b) \<le> 8"
    "min (bits - i) (8 - b) \<le> bits - i" "min (bits - i) (8 - b) \<le> 8"
    by (simp_all add: min_def)
  then show "1 \<le> min (bits - i) (8 - offset mod 8)"
    "offset mod 8 + min (bits - i) (8 - offset mod 8) \<le> 8"
    "min (bits - i) (8 - offset mod 8) \<le> bits - i" "min (bits - i) (8 - offset mod 8) \<le> 8"
    by (simp_all only: b_def)
qed

lemma setBits_loop_done: "\<not> i < bits \<Longrightarrow> setBits_loop bv bits offset val i = bv"
  by (subst setBits_loop.simps) simp

lemma setBits_loop_unfold_LE:
  assumes "i < bits" "\<not> bigEndian bv" "0 \<le> offset" "offset < 2 ^ 31"
  shows "setBits_loop bv bits offset val i
         = setBits_loop
             (bv\<lparr>view := view_put (view bv) (offset div 8)
               (js_or (js_and (view_at (view bv) (offset div 8))
                         (js_not (js_shl (js_not (js_shl 255 (min (bits - i) (8 - offset mod 8))))
                                   (offset mod 8))))
                      (js_shl (js_and val (js_not (js_shl 255 (min (bits - i) (8 - offset mod 8)))))
                         (offset mod 8)))\<rparr>)
             bits (offset + min (bits - i) (8 - offset mod 8))
             (js_sar val (min (bits - i) (8 - offset mod 8)))
             (i + min (bits - i) (8 - offset mod 8))"
  using assms
  by (subst setBits_loop.simps) (simp add: Let_def js_and_7_mod js_sar_3_div)

lemma setBits_loop_unfold_BE:
  assumes "i < bits" "bigEndian bv" "0 \<le> offset" "offset < 2 ^ 31"
  shows "setBits_loop bv bits offset val i
         = setBits_loop
             (bv\<lparr>view := view_put (view bv) (offset div 8)
               (js_or (js_and (view_at (view bv) (offset div 8))
                         (js_not (js_shl (js_not (js_shl (js_not 0) (min (bits - i) (8 - offset mod 8))))
                                   (8 - offset mod 8 - min (bits - i) (8 - offset mod 8)))))
                      (js_shl (js_and (js_sar val (bits - i - min (bits - i) (8 - offset mod 8)))
                                 (js_not (js_shl (js_not 0) (min (bits - i) (8 - offset mod 8)))))
                         (8 - offset mod 8 - min (bits - i) (8 - offset mod 8))))\<rparr>)
             bits (offset + min (bits - i) (8 - offset mod 8)) val
             (i + min (bits - i) (8 - offset mod 8))"
  using assms
  by (subst setBits_loop.simps) (simp add: Let_def js_and_7_mod js_sar_3_div)

lemma setBits_loop_next:
  assumes "i < bits" "0 \<le> offset" "offset < 8 * int (length (view bv))" "offset < 2 ^ 31"
  defines "wr \<equiv> min (bits - i) (8 - offset mod 8)"
  shows "\<exists>bv1 val'.
           setBits_loop bv bits offset val i = setBits_loop bv1 bits (offset + wr) val' (i + wr)
           \<and> length (view bv1) = length (view bv) \<and> bigEndian bv1 = bigEndian bv
           \<and> (\<forall>p\<ge>0. \<not> (offset \<le> p \<and> p < offset + wr) \<longrightarrow> bit_at bv1 p = bit_at bv p)"
proof -
  note cs = chunk_size [OF assms(1), of offset, folded wr_def]
  have wr0: "0 \<le> wr"
    using cs(1) by simp
  show ?thesis
  proof (cases "bigEndian bv")
    case True
    define bv1 where "bv1 = bv\<lparr>view := view_put (view bv) (offset div 8)
               (js_or (js_and (view_at (view bv) (offset div 8))
                         (js_not (js_shl (js_not (js_shl (js_not 0) wr)) (8 - offset mod 8 - wr))))
                      (js_shl (js_and (js_sar val (bits - i - wr)) (js_not (js_shl (js_not 0) wr)))
                         (8 - offset mod 8 - wr)))\<rparr>"
    have "setBits_loop bv bits offset val i = setBits_loop bv1 bits (offset + wr) val (i + wr)"
      unfolding bv1_def wr_def by (rule setBits_loop_unfold_BE [OF assms(1) True assms(2,4)])
    moreover have "length (view bv1) = length (view bv)" "bigEndian bv1 = bigEndian bv"
      by (simp_all add: bv1_def)
    moreover have "bit_at bv1 p = bit_at bv p" if "0 \<le> p" "\<not> (offset \<le> p \<and> p < offset + wr)" for p
      using set_step_BE [OF True assms(2,3) wr0 cs(2) that(1) bv1_def] that(2) by simp
    ultimately show ?thesis
      by blast
  next
    case False
    define bv1 where "bv1 = bv\<lparr>view := view_put (view bv) (offset div 8)
               (js_or (js_and (view_at (view bv) (offset div 8))
                         (js_not (js_shl (js_not (js_shl 255 wr)) (offset mod 8))))
                      (js_shl (js_and val (js_not (js_shl 255 wr))) (offset mod 8)))\<rparr>"
    have "setBits_loop bv bits offset val i
          = setBits_loop bv1 bits (offset + wr) (js_sar val wr) (i + wr)"
      unfolding bv1_def wr_def by (rule setBits_loop_unfold_LE [OF assms(1) False assms(2,4)])
    moreover have "length (view bv1) = length (view bv)" "bigEndian bv1 = bigEndian bv"
      by (simp_all add: bv1_def)
    moreover have "bit_at bv1 p = bit_at bv p" if "0 \<le> p" "\<not> (offset \<le> p \<and> p < offset + wr)" for p
      using set_step_LE [OF False assms(2,3) wr0 cs(2) that(1) bv1_def] that(2) by simp
    ultimately show ?thesis
      by blast
  qed
qed

lemma setBits_loop_frame:
  assumes "0 \<le> offset" "offset + (bits - i) \<le> 8 * int (length (view bv))"
    "offset + (bits - i) \<le> 2 ^ 31"
  shows "length (view (setBits_loop bv bits offset val i)) = length (view bv)
         \<and> bigEndian (setBits_loop bv bits offset val i) = bigEndian bv
         \<and> (\<forall>p\<ge>0. \<not> (offset \<le> p \<and> p < offset + (bits - i))
                \<longrightarrow> bit_at (setBits_loop bv bits offset val i) p = bit_at bv p)"
  using assms
proof (induction "nat (bits - i)" arbitrary: bv offset val i rule: less_induct)
  case less
  show ?case
  proof (cases "i < bits")
    case False
    then show ?thesis
      by (simp add: setBits_loop_done)
  next
    case True
    define wr where "wr = min (bits - i) (8 - offset mod 8)"
    note cs = chunk_size [OF True, of offset, folded wr_def]
    have off: "offset < 8 * int (length (view bv))" "offset < 2 ^ 31"
      using less.prems True by simp_all
    from setBits_loop_next [OF True less.prems(1) off, of val, folded wr_def]
    obtain bv1 val' where
      unf: "setBits_loop bv bits offset val i = setBits_loop bv1 bits (offset + wr) val' (i + wr)"
      and len1: "length (view bv1) = length (view bv)" and be1: "bigEndian bv1 = bigEndian bv"
      and fr1: "\<And>p. 0 \<le> p \<Longrightarrow> \<not> (offset \<le> p \<and> p < offset + wr) \<Longrightarrow> bit_at bv1 p = bit_at bv p"
      by blast
    have m: "nat (bits - (i + wr)) < nat (bits - i)"
      using cs(1) True by simp
    have pre: "0 \<le> offset + wr" "offset + wr + (bits - (i + wr)) \<le> 8 * int (length (view bv1))"
      "offset + wr + (bits - (i + wr)) \<le> 2 ^ 31"
      using less.prems cs(1) by (simp_all add: len1)
    note IH = less.hyps [OF m pre, of val']
    have "bit_at (setBits_loop bv1 bits (offset + wr) val' (i + wr)) p = bit_at bv p"
      if "0 \<le> p" "\<not> (offset \<le> p \<and> p < offset + (bits - i))" for p
    proof -
      have "\<not> (offset + wr \<le> p \<and> p < offset + wr + (bits - (i + wr)))"
        using that(2) cs(1) by auto
      with IH that(1) have "bit_at (setBits_loop bv1 bits (offset + wr) val' (i + wr)) p = bit_at bv1 p"
        by blast
      moreover have "\<not> (offset \<le> p \<and> p < offset + wr)"
        using that(2) cs(3) by auto
      ultimately show ?thesis
        using fr1 [OF that(1)] by simp
    qed
    with IH show ?thesis
      unfolding unf by (simp add: len1 be1)
  qed
qed

lemma bit_signed_drop_bit_low:
  "m + n < 32 \<Longrightarrow> bit (signed_drop_bit m (w :: 32 word)) n = bit w (m + n)"
  by (auto simp: bit_simps)

lemma setBits_loop_content_LE:
  assumes "\<not> bigEndian bv" "0 \<le> offset" "offset + (bits - i) \<le> 8 * int (length (view bv))"
    "offset + (bits - i) \<le> 2 ^ 31" "bits - i \<le> 32" "offset \<le> p" "p < offset + (bits - i)"
  shows "bit_at (setBits_loop bv bits offset val i) p = bit (toInt32 val) (nat (p - offset))"
  using assms
proof (induction "nat (bits - i)" arbitrary: bv offset val i rule: less_induct)
  case less
  have True: "i < bits"
    using less.prems(6,7) by simp
  define wr where "wr = min (bits - i) (8 - offset mod 8)"
  note cs = chunk_size [OF True, of offset, folded wr_def]
  have wr0: "0 \<le> wr"
    using cs(1) by simp
  have off: "offset < 8 * int (length (view bv))" "offset < 2 ^ 31"
    using less.prems True by simp_all
  have p0: "0 \<le> p"
    using less.prems(2,6) by simp
  define bv1 where "bv1 = bv\<lparr>view := view_put (view bv) (offset div 8)
               (js_or (js_and (view_at (view bv) (offset div 8))
                         (js_not (js_shl (js_not (js_shl 255 wr)) (offset mod 8))))
                      (js_shl (js_and val (js_not (js_shl 255 wr))) (offset mod 8)))\<rparr>"
  have unf: "setBits_loop bv bits offset val i
          = setBits_loop bv1 bits (offset + wr) (js_sar val wr) (i + wr)"
    unfolding bv1_def wr_def by (rule setBits_loop_unfold_LE [OF True less.prems(1,2) off(2)])
  have len1: "length (view bv1) = length (view bv)" and be1: "\<not> bigEndian bv1"
    using less.prems(1) by (simp_all add: bv1_def)
  note step = set_step_LE [OF less.prems(1,2) off(1) wr0 cs(2) p0 bv1_def]
  have pre: "0 \<le> offset + wr" "offset + wr + (bits - (i + wr)) \<le> 8 * int (length (view bv1))"
    "offset + wr + (bits - (i + wr)) \<le> 2 ^ 31"
    using less.prems cs(1) by (simp_all add: len1)
  show ?case
  proof (cases "p < offset + wr")
    case True
    then have "\<not> (offset + wr \<le> p \<and> p < offset + wr + (bits - (i + wr)))"
      by simp
    with setBits_loop_frame [OF pre, of "js_sar val wr"] p0
    have "bit_at (setBits_loop bv1 bits (offset + wr) (js_sar val wr) (i + wr)) p = bit_at bv1 p"
      by blast
    with step True less.prems(6) show ?thesis
      unfolding unf by simp
  next
    case False
    have m: "nat (bits - (i + wr)) < nat (bits - i)"
      using cs(1) \<open>i < bits\<close> by simp
    have "bit_at (setBits_loop bv1 bits (offset + wr) (js_sar val wr) (i + wr)) p
          = bit (toInt32 (js_sar val wr)) (nat (p - (offset + wr)))"
      using less.prems(5,7) False wr0 by (intro less.hyps [OF m be1 pre]) simp_all
    also have "toInt32 (js_sar val wr) = signed_drop_bit (nat wr) (toInt32 val)"
      using wr0 cs(4) by simp
    also have "bit (signed_drop_bit (nat wr) (toInt32 val)) (nat (p - (offset + wr)))
               = bit (toInt32 val) (nat wr + nat (p - (offset + wr)))"
    proof -
      have "nat wr + nat (p - (offset + wr)) < 32"
        using less.prems(5,7) False wr0 by linarith
      then show ?thesis
        by (rule bit_signed_drop_bit_low)
    qed
    also have "nat wr + nat (p - (offset + wr)) = nat (p - offset)"
      using False wr0 by simp
    finally show ?thesis
      unfolding unf .
  qed
qed

lemma setBits_loop_content_BE:
  assumes "bigEndian bv" "0 \<le> offset" "offset + (bits - i) \<le> 8 * int (length (view bv))"
    "offset + (bits - i) \<le> 2 ^ 31" "0 \<le> i" "bits \<le> 32" "offset \<le> p" "p < offset + (bits - i)"
  shows "bit_at (setBits_loop bv bits offset val i) p
         = bit (toInt32 val) (nat (offset + (bits - i) - 1 - p))"
  using assms
proof (induction "nat (bits - i)" arbitrary: bv offset i rule: less_induct)
  case less
  have True: "i < bits"
    using less.prems(7,8) by simp
  define wr where "wr = min (bits - i) (8 - offset mod 8)"
  note cs = chunk_size [OF True, of offset, folded wr_def]
  have wr0: "0 \<le> wr"
    using cs(1) by simp
  have off: "offset < 8 * int (length (view bv))" "offset < 2 ^ 31"
    using less.prems True by simp_all
  have p0: "0 \<le> p"
    using less.prems(2,7) by simp
  define bv1 where "bv1 = bv\<lparr>view := view_put (view bv) (offset div 8)
               (js_or (js_and (view_at (view bv) (offset div 8))
                         (js_not (js_shl (js_not (js_shl (js_not 0) wr)) (8 - offset mod 8 - wr))))
                      (js_shl (js_and (js_sar val (bits - i - wr)) (js_not (js_shl (js_not 0) wr)))
                         (8 - offset mod 8 - wr)))\<rparr>"
  have unf: "setBits_loop bv bits offset val i = setBits_loop bv1 bits (offset + wr) val (i + wr)"
    unfolding bv1_def wr_def by (rule setBits_loop_unfold_BE [OF True less.prems(1,2) off(2)])
  have len1: "length (view bv1) = length (view bv)" and be1: "bigEndian bv1"
    using less.prems(1) by (simp_all add: bv1_def)
  note step = set_step_BE [OF less.prems(1,2) off(1) wr0 cs(2) p0 bv1_def]
  have pre: "0 \<le> offset + wr" "offset + wr + (bits - (i + wr)) \<le> 8 * int (length (view bv1))"
    "offset + wr + (bits - (i + wr)) \<le> 2 ^ 31"
    using less.prems cs(1) by (simp_all add: len1)
  show ?case
  proof (cases "p < offset + wr")
    case True
    then have "\<not> (offset + wr \<le> p \<and> p < offset + wr + (bits - (i + wr)))"
      by simp
    with setBits_loop_frame [OF pre, of val] p0
    have "bit_at (setBits_loop bv1 bits (offset + wr) val (i + wr)) p = bit_at bv1 p"
      by blast
    with step True less.prems(7)
    have "bit_at (setBits_loop bv bits offset val i) p
          = bit (toInt32 (js_sar val (bits - i - wr))) (nat (offset + wr - 1 - p))"
      unfolding unf by simp
    also have "toInt32 (js_sar val (bits - i - wr)) = signed_drop_bit (nat (bits - i - wr)) (toInt32 val)"
      using cs(1,3) less.prems(5,6) by simp
    also have "bit (signed_drop_bit (nat (bits - i - wr)) (toInt32 val)) (nat (offset + wr - 1 - p))
               = bit (toInt32 val) (nat (bits - i - wr) + nat (offset + wr - 1 - p))"
    proof -
      have "nat (bits - i - wr) + nat (offset + wr - 1 - p) < 32"
        using less.prems(5,6,7) True cs(3) by linarith
      then show ?thesis
        by (rule bit_signed_drop_bit_low)
    qed
    also have "nat (bits - i - wr) + nat (offset + wr - 1 - p) = nat (offset + (bits - i) - 1 - p)"
      using True cs(3) by simp
    finally show ?thesis .
  next
    case False
    have m: "nat (bits - (i + wr)) < nat (bits - i)"
      using cs(1) \<open>i < bits\<close> by simp
    have "bit_at (setBits_loop bv1 bits (offset + wr) val (i + wr)) p
          = bit (toInt32 val) (nat (offset + wr + (bits - (i + wr)) - 1 - p))"
      using less.prems(5,6,8) False wr0 by (intro less.hyps [OF m be1 pre]) simp_all
    then show ?thesis
      unfolding unf by (simp add: algebra_simps)
  qed
qed

section \<open>What the read loop assembles\<close>

lemma getBits_loop_done: "\<not> i < bits \<Longrightarrow> getBits_loop bv bits offset i val = val"
  by (subst getBits_loop.simps) simp

lemma getBits_loop_unfold_LE:
  assumes "i < bits" "\<not> bigEndian bv" "0 \<le> offset" "offset < 2 ^ 31"
  shows "getBits_loop bv bits offset i val
         = getBits_loop bv bits (offset + min (bits - i) (8 - offset mod 8))
             (i + min (bits - i) (8 - offset mod 8))
             (js_or val (js_shl (js_and (js_sar (view_at (view bv) (offset div 8)) (offset mod 8))
                                    (js_not (js_shl 255 (min (bits - i) (8 - offset mod 8))))) i))"
  using assms
  by (subst getBits_loop.simps) (simp add: Let_def js_and_7_mod js_sar_3_div)

lemma getBits_loop_unfold_BE:
  assumes "i < bits" "bigEndian bv" "0 \<le> offset" "offset < 2 ^ 31"
  shows "getBits_loop bv bits offset i val
         = getBits_loop bv bits (offset + min (bits - i) (8 - offset mod 8))
             (i + min (bits - i) (8 - offset mod 8))
             (js_or (js_shl val (min (bits - i) (8 - offset mod 8)))
                (js_and (js_sar (view_at (view bv) (offset div 8))
                           (8 - min (bits - i) (8 - offset mod 8) - offset mod 8))
                        (js_not (js_shl 255 (min (bits - i) (8 - offset mod 8))))))"
  using assms
  by (subst getBits_loop.simps) (simp add: Let_def js_and_7_mod js_sar_3_div)

lemma getBits_loop_LE:
  assumes "\<not> bigEndian bv" "0 \<le> offset" "offset + (bits - i) \<le> 8 * int (length (view bv))"
    "offset + (bits - i) \<le> 2 ^ 31" "0 \<le> i" "bits \<le> 32"
  shows "bit (toInt32 (getBits_loop bv bits offset i val)) k
         \<longleftrightarrow> bit (toInt32 val) k
             \<or> (i \<le> int k \<and> int k < bits \<and> bit_at bv (offset + (int k - i)))"
  using assms
proof (induction "nat (bits - i)" arbitrary: offset i val rule: less_induct)
  case less
  show ?case
  proof (cases "i < bits")
    case False
    then show ?thesis
      by (auto simp: getBits_loop_done)
  next
    case True
    define rd where "rd = min (bits - i) (8 - offset mod 8)"
    note cs = chunk_size [OF True, of offset, folded rd_def]
    have rd0: "0 \<le> rd"
      using cs(1) by simp
    have off: "offset < 8 * int (length (view bv))" "offset < 2 ^ 31"
      using less.prems True by simp_all
    define val' where "val' = js_or val (js_shl (js_and (js_sar (view_at (view bv) (offset div 8)) (offset mod 8))
                                    (js_not (js_shl 255 rd))) i)"
    have unf: "getBits_loop bv bits offset i val = getBits_loop bv bits (offset + rd) (i + rd) val'"
      unfolding val'_def rd_def by (rule getBits_loop_unfold_LE [OF True less.prems(1,2) off(2)])
    have i32: "i < 32"
      using True less.prems(6) by simp
    have step: "bit (toInt32 val') k
         \<longleftrightarrow> bit (toInt32 val) k \<or> (i \<le> int k \<and> int k < i + rd \<and> k < 32 \<and> bit_at bv (offset + (int k - i)))"
      unfolding val'_def by (rule get_step_LE [OF less.prems(1,2) off(1) rd0 cs(2) less.prems(5) i32])
    have m: "nat (bits - (i + rd)) < nat (bits - i)"
      using cs(1) True by simp
    have pre: "0 \<le> offset + rd" "offset + rd + (bits - (i + rd)) \<le> 8 * int (length (view bv))"
      "offset + rd + (bits - (i + rd)) \<le> 2 ^ 31" "0 \<le> i + rd"
      using less.prems cs(1) by simp_all
    have IH: "bit (toInt32 (getBits_loop bv bits (offset + rd) (i + rd) val')) k
         \<longleftrightarrow> bit (toInt32 val') k
             \<or> (i + rd \<le> int k \<and> int k < bits \<and> bit_at bv (offset + rd + (int k - (i + rd))))"
      by (rule less.hyps [OF m less.prems(1) pre less.prems(6)])
    have e: "offset + rd + (int k - (i + rd)) = offset + (int k - i)"
      by simp
    have k32: "int k < bits \<Longrightarrow> k < 32"
      using less.prems(6) by simp
    show ?thesis
      unfolding unf IH step e using cs(3) k32 rd0 by auto
  qed
qed

lemma getBits_loop_BE:
  assumes "bigEndian bv" "0 \<le> offset" "offset + (bits - i) \<le> 8 * int (length (view bv))"
    "offset + (bits - i) \<le> 2 ^ 31" "k < 32"
  shows "bit (toInt32 (getBits_loop bv bits offset i val)) k
         \<longleftrightarrow> (if int k < bits - i then bit_at bv (offset + (bits - i - 1 - int k))
              else bit (toInt32 val) (k - nat (bits - i)))"
  using assms
proof (induction "nat (bits - i)" arbitrary: offset i val k rule: less_induct)
  case less
  show ?case
  proof (cases "i < bits")
    case False
    then show ?thesis
      by (auto simp: getBits_loop_done)
  next
    case True
    define rd where "rd = min (bits - i) (8 - offset mod 8)"
    note cs = chunk_size [OF True, of offset, folded rd_def]
    have rd0: "0 \<le> rd"
      using cs(1) by simp
    have off: "offset < 8 * int (length (view bv))" "offset < 2 ^ 31"
      using less.prems True by simp_all
    define val' where "val' = js_or (js_shl val rd)
                (js_and (js_sar (view_at (view bv) (offset div 8)) (8 - rd - offset mod 8))
                        (js_not (js_shl 255 rd)))"
    have unf: "getBits_loop bv bits offset i val = getBits_loop bv bits (offset + rd) (i + rd) val'"
      unfolding val'_def rd_def by (rule getBits_loop_unfold_BE [OF True less.prems(1,2) off(2)])
    have step: "bit (toInt32 val') j
         \<longleftrightarrow> (if int j < rd then bit_at bv (offset + (rd - 1 - int j))
              else j < 32 \<and> bit (toInt32 val) (j - nat rd))" for j
      unfolding val'_def by (rule get_step_BE [OF less.prems(1,2) off(1) rd0 cs(2)])
    have m: "nat (bits - (i + rd)) < nat (bits - i)"
      using cs(1) True by simp
    have pre: "0 \<le> offset + rd" "offset + rd + (bits - (i + rd)) \<le> 8 * int (length (view bv))"
      "offset + rd + (bits - (i + rd)) \<le> 2 ^ 31"
      using less.prems cs(1) by simp_all
    have IH: "bit (toInt32 (getBits_loop bv bits (offset + rd) (i + rd) val')) k
         \<longleftrightarrow> (if int k < bits - (i + rd) then bit_at bv (offset + rd + (bits - (i + rd) - 1 - int k))
              else bit (toInt32 val') (k - nat (bits - (i + rd))))"
      by (rule less.hyps [OF m less.prems(1) pre less.prems(5)])
    show ?thesis
    proof (cases "int k < bits - (i + rd)")
      case True
      then show ?thesis
        unfolding unf IH using rd0 by (simp add: algebra_simps)
    next
      case False
      define j where "j = k - nat (bits - (i + rd))"
      have j: "int j = int k - (bits - (i + rd))" "j < 32"
        using False cs(3) less.prems(5) by (simp_all add: j_def)
      have "bit (toInt32 (getBits_loop bv bits offset i val)) k \<longleftrightarrow> bit (toInt32 val') j"
        unfolding unf IH using False by (simp add: j_def)
      also have "\<dots> \<longleftrightarrow> (if int j < rd then bit_at bv (offset + (rd - 1 - int j))
              else bit (toInt32 val) (j - nat rd))"
        using step [of j] j(2) by simp
      also have "int j < rd \<longleftrightarrow> int k < bits - i"
        using j(1) by auto
      also have "offset + (rd - 1 - int j) = offset + (bits - i - 1 - int k)"
        using j(1) by simp
      also have "j - nat rd = k - nat (bits - i)"
        using rd0 cs(3) by (simp add: j_def)
      finally show ?thesis .
    qed
  qed
qed

lemma getBits_loop_unfold:
  assumes "i < bits"
  shows "\<exists>a b. getBits_loop bv bits offset i val
           = getBits_loop bv bits (offset + min (bits - i) (8 - offset mod 8))
               (i + min (bits - i) (8 - offset mod 8)) (js_or a b)"
proof (cases "bigEndian bv")
  case True
  with assms have "getBits_loop bv bits offset i val
           = getBits_loop bv bits (offset + min (bits - i) (8 - offset mod 8))
               (i + min (bits - i) (8 - offset mod 8))
               (js_or (js_shl val (min (bits - i) (8 - offset mod 8)))
                  (js_and (js_sar (view_at (view bv) (js_sar offset 3))
                             (8 - min (bits - i) (8 - offset mod 8) - offset mod 8))
                          (js_not (js_shl 255 (min (bits - i) (8 - offset mod 8))))))"
    by (subst getBits_loop.simps) (simp add: Let_def js_and_7_mod)
  then show ?thesis
    by (intro exI)
next
  case False
  with assms have "getBits_loop bv bits offset i val
           = getBits_loop bv bits (offset + min (bits - i) (8 - offset mod 8))
               (i + min (bits - i) (8 - offset mod 8))
               (js_or val (js_shl (js_and (js_sar (view_at (view bv) (js_sar offset 3)) (offset mod 8))
                                    (js_not (js_shl 255 (min (bits - i) (8 - offset mod 8))))) i))"
    by (subst getBits_loop.simps) (simp add: Let_def js_and_7_mod)
  then show ?thesis
    by (intro exI)
qed

lemma getBits_loop_int32:
  assumes "sint (toInt32 val) = val"
  shows "sint (toInt32 (getBits_loop bv bits offset i val)) = getBits_loop bv bits offset i val"
  using assms
proof (induction "nat (bits - i)" arbitrary: offset i val rule: less_induct)
  case less
  show ?case
  proof (cases "i < bits")
    case False
    with less.prems show ?thesis
      by (simp add: getBits_loop_done)
  next
    case True
    define rd where "rd = min (bits - i) (8 - offset mod 8)"
    note cs = chunk_size [OF True, of offset, folded rd_def]
    from getBits_loop_unfold [OF True, of bv offset val, folded rd_def]
    obtain a b where
      unf: "getBits_loop bv bits offset i val = getBits_loop bv bits (offset + rd) (i + rd) (js_or a b)"
      by blast
    have m: "nat (bits - (i + rd)) < nat (bits - i)"
      using cs(1) True by simp
    have "sint (toInt32 (js_or a b)) = js_or a b"
      by (simp add: js_or_def)
    from less.hyps [OF m this] show ?thesis
      unfolding unf .
  qed
qed

section \<open>Reading back what was written\<close>

lemma getBits_loop_setBits_loop:
  assumes "bits \<le> 32" "0 \<le> offset" "offset + bits \<le> 8 * int (length (view bv))"
    "offset + bits \<le> 2 ^ 31"
  shows "toInt32 (getBits_loop (setBits_loop bv bits offset val 0) bits offset 0 0)
         = take_bit (nat bits) (toInt32 val)"
proof (rule bit_word_eqI)
  fix k :: nat
  assume "k < LENGTH(32)"
  then have k: "k < 32"
    by simp
  define bv' where "bv' = setBits_loop bv bits offset val 0"
  have pre: "0 \<le> offset" "offset + (bits - 0) \<le> 8 * int (length (view bv))"
    "offset + (bits - 0) \<le> 2 ^ 31"
    using assms by simp_all
  from setBits_loop_frame [OF pre, of val]
  have len: "length (view bv') = length (view bv)" and be: "bigEndian bv' = bigEndian bv"
    by (simp_all add: bv'_def)
  have pre': "offset + (bits - 0) \<le> 8 * int (length (view bv'))"
    using pre(2) by (simp add: len)
  have kb: "int k < bits \<longleftrightarrow> k < nat bits"
    by linarith
  show "bit (toInt32 (getBits_loop (setBits_loop bv bits offset val 0) bits offset 0 0)) k
        = bit (take_bit (nat bits) (toInt32 val)) k"
  proof (cases "bigEndian bv")
    case False
    then have le': "\<not> bigEndian bv'"
      by (simp add: be)
    have "bit (toInt32 (getBits_loop bv' bits offset 0 0)) k
          \<longleftrightarrow> int k < bits \<and> bit_at bv' (offset + int k)"
      using getBits_loop_LE [OF le' pre(1) pre' pre(3) _ assms(1), of 0 k] by simp
    moreover have "bit_at bv' (offset + int k) = bit (toInt32 val) k" if "int k < bits"
      using setBits_loop_content_LE [OF False pre, of "offset + int k" val] that assms(1)
      by (simp add: bv'_def)
    ultimately show ?thesis
      unfolding bv'_def [symmetric] using kb by (auto simp: bit_simps)
  next
    case True
    then have be': "bigEndian bv'"
      by (simp add: be)
    have "bit (toInt32 (getBits_loop bv' bits offset 0 0)) k
          \<longleftrightarrow> int k < bits \<and> bit_at bv' (offset + (bits - 1 - int k))"
      using getBits_loop_BE [OF be' pre(1) pre' pre(3) k, of 0] by simp
    moreover have "bit_at bv' (offset + (bits - 1 - int k)) = bit (toInt32 val) k" if "int k < bits"
      using setBits_loop_content_BE [OF True pre _ assms(1), of "offset + (bits - 1 - int k)" val] that
      by (simp add: bv'_def)
    ultimately show ?thesis
      unfolding bv'_def [symmetric] using kb by (auto simp: bit_simps)
  qed
qed

lemma sign_extend_set:
  fixes V :: "32 word"
  assumes "1 \<le> n" "bit V (n - 1)"
  shows "take_bit n V OR NOT (mask n) = signed_take_bit (n - 1) V"
proof (rule bit_word_eqI)
  fix k :: nat
  assume "k < LENGTH(32)"
  then have k: "k < 32"
    by simp
  consider "k < n - 1" | "k = n - 1" | "n \<le> k"
    by linarith
  then show "bit (take_bit n V OR NOT (mask n)) k = bit (signed_take_bit (n - 1) V) k"
  proof cases
    case 1
    then have "k < n"
      by simp
    with 1 k show ?thesis
      by (simp add: bit_simps min_def)
  next
    case 2
    with k assms show ?thesis
      by (simp add: bit_simps)
  next
    case 3
    then have "n - 1 \<le> k" "\<not> k < n"
      by simp_all
    with k assms show ?thesis
      by (simp add: bit_simps min_def)
  qed
qed

lemma sign_extend_unset:
  fixes V :: "32 word"
  assumes "1 \<le> n" "\<not> bit V (n - 1)"
  shows "take_bit n V = signed_take_bit (n - 1) V"
proof (rule bit_word_eqI)
  fix k :: nat
  assume "k < LENGTH(32)"
  then have k: "k < 32"
    by simp
  consider "k < n - 1" | "k = n - 1" | "n \<le> k"
    by linarith
  then show "bit (take_bit n V) k = bit (signed_take_bit (n - 1) V) k"
  proof cases
    case 1
    then have "k < n"
      by simp
    with 1 k show ?thesis
      by (simp add: bit_simps min_def)
  next
    case 2
    with k assms show ?thesis
      by (simp add: bit_simps)
  next
    case 3
    then have "n - 1 \<le> k" "\<not> k < n"
      by simp_all
    with k assms show ?thesis
      by (simp add: bit_simps min_def)
  qed
qed

lemma sint_signed_take_bit_toInt32:
  assumes "n \<le> 31"
  shows "sint (signed_take_bit n (toInt32 v)) = signed_take_bit n v"
proof (rule bit_eqI)
  fix k
  from assms show "bit (sint (signed_take_bit n (toInt32 v))) k = bit (signed_take_bit n v) k"
    by (simp add: bit_simps toInt32_def min_def)
qed

lemma uint_take_bit_toInt32:
  assumes "n \<le> 32"
  shows "uint (take_bit n (toInt32 v)) = take_bit n v"
proof (rule bit_eqI)
  fix k
  from assms show "bit (uint (take_bit n (toInt32 v))) k = bit (take_bit n v) k"
    by (cases "k < n") (simp_all add: bit_simps toInt32_def)
qed

lemma toInt32_1 [simp]: "toInt32 1 = 1"
  by (simp add: toInt32_def)

lemma toInt32_pow2_mask: "n < 32 \<Longrightarrow> toInt32 (js_shl 1 (int n) - 1) = mask n"
proof -
  assume "n < 32"
  then have "toInt32 (js_shl 1 (int n)) = push_bit n 1"
    by simp
  moreover have "toInt32 (js_shl 1 (int n) - 1) = toInt32 (js_shl 1 (int n)) - 1"
    by (simp add: toInt32_def)
  ultimately show ?thesis
    by (simp add: mask_eq_exp_minus_1 push_bit_eq_mult)
qed

lemma getBits_of_setBits:
  assumes w: "1 \<le> w" "w \<le> 32"
    and off: "0 \<le> offset" "offset + w \<le> 8 * byteLength bv" "offset + w \<le> 2 ^ 31"
  shows "setBits bv offset v w = (Inr (), setBits_loop bv w offset v 0)"
    and "getBits (snd (setBits bv offset v w)) offset w False = Inr (take_bit (nat w) v)"
    and "getBits (snd (setBits bv offset v w)) offset w True
         = Inr (signed_take_bit (nat w - 1) v)"
proof -
  define n where "n = nat w"
  have n: "w = int n" "1 \<le> n" "n \<le> 32"
    using w by (simp_all add: n_def)
  define bv' where "bv' = setBits_loop bv w offset v 0"
  define R where "R = getBits_loop bv' w offset 0 0"
  define V where "V = toInt32 v"
  have pre: "0 \<le> offset" "offset + (w - 0) \<le> 8 * int (length (view bv))"
    "offset + (w - 0) \<le> 2 ^ 31"
    using off by (simp_all add: byteLength_def)
  show set: "setBits bv offset v w = (Inr (), setBits_loop bv w offset v 0)"
    using pre(2) by (simp add: setBits_def)
  from setBits_loop_frame [OF pre, of v]
  have len: "length (view bv') = length (view bv)"
    by (simp add: bv'_def)
  have R: "toInt32 R = take_bit n V"
    unfolding R_def bv'_def V_def n_def
    using getBits_loop_setBits_loop [OF w(2) off(1) _ off(3), of bv v] pre(2) by simp
  have Rint: "sint (toInt32 R) = R"
    unfolding R_def by (rule getBits_loop_int32) (simp add: toInt32_def)
  have get: "getBits bv' offset w sg
        = (if sg then
             (if w \<noteq> 32 \<and> js_and R (js_shl 1 (w - 1)) \<noteq> 0
              then Inr (js_or R (js_xor (- 1) (js_shl 1 w - 1))) else Inr R)
           else Inr (js_ushr0 R))" for sg
    using pre(2) by (simp add: getBits_def len R_def Let_def)
  have "js_ushr0 R = take_bit n v"
    using uint_take_bit_toInt32 [OF n(3), of v] by (simp add: js_ushr0_def R V_def)
  then show "getBits (snd (setBits bv offset v w)) offset w False = Inr (take_bit (nat w) v)"
    by (simp add: set get bv'_def [symmetric] n_def)
  have n1: "n - 1 \<le> 31"
    using n(3) by simp
  have "(if w \<noteq> 32 \<and> js_and R (js_shl 1 (w - 1)) \<noteq> 0
         then js_or R (js_xor (- 1) (js_shl 1 w - 1)) else R) = signed_take_bit (n - 1) v"
  proof (cases "w = 32")
    case True
    then have "n = 32"
      using n(1) by simp
    then have "toInt32 R = V"
      by (simp add: R take_bit_word_eq_self)
    then have "R = sint V"
      using Rint by simp
    also have "\<dots> = signed_take_bit (n - 1) v"
      using \<open>n = 32\<close> by (simp add: V_def toInt32_def signed_of_int)
    finally show ?thesis
      using True by simp
  next
    case False
    then have n32: "n < 32" "n - 1 < 32"
      using n by simp_all
    have w1: "w - 1 = int (n - 1)"
      using n(1,2) by simp
    have "toInt32 (js_shl 1 (w - 1)) = push_bit (n - 1) 1"
      unfolding w1 using n32(2) by (simp del: push_bit_of_1)
    then have "toInt32 (js_and R (js_shl 1 (w - 1))) = take_bit n V AND push_bit (n - 1) 1"
      by (simp only: toInt32_js_and R)
    moreover have "js_and R (js_shl 1 (w - 1)) = 0 \<longleftrightarrow> toInt32 (js_and R (js_shl 1 (w - 1))) = 0"
      by (simp add: js_and_def signed_eq_0_iff)
    moreover have "bit (take_bit n V) (n - 1) \<longleftrightarrow> take_bit n V AND push_bit (n - 1) 1 \<noteq> 0"
      by (rule bit_iff_and_push_bit_not_eq_0)
    moreover have "bit (take_bit n V) (n - 1) \<longleftrightarrow> bit V (n - 1)"
      using n(2) by (simp add: bit_simps)
    ultimately have cond: "js_and R (js_shl 1 (w - 1)) \<noteq> 0 \<longleftrightarrow> bit V (n - 1)"
      by (simp only:)
    show ?thesis
    proof (cases "bit V (n - 1)")
      case True
      have "toInt32 (js_or R (js_xor (- 1) (js_shl 1 w - 1))) = take_bit n V OR NOT (mask n)"
        unfolding n(1) using n32(1) by (simp add: R toInt32_pow2_mask) (simp add: toInt32_def)
      also have "\<dots> = signed_take_bit (n - 1) V"
        by (rule sign_extend_set [OF n(2) True])
      finally have e: "toInt32 (js_or R (js_xor (- 1) (js_shl 1 w - 1))) = signed_take_bit (n - 1) V" .
      have "sint (toInt32 (js_or R (js_xor (- 1) (js_shl 1 w - 1)))) = signed_take_bit (n - 1) v"
        unfolding e V_def by (rule sint_signed_take_bit_toInt32 [OF n1])
      then have "js_or R (js_xor (- 1) (js_shl 1 w - 1)) = signed_take_bit (n - 1) v"
        by (simp add: js_or_def)
      with True cond False show ?thesis
        by simp
    next
      case nb: False
      have "R = sint (take_bit n V)"
        using Rint R by simp
      also have "take_bit n V = signed_take_bit (n - 1) V"
        by (rule sign_extend_unset [OF n(2) nb])
      also have "sint (signed_take_bit (n - 1) V) = signed_take_bit (n - 1) v"
        unfolding V_def by (rule sint_signed_take_bit_toInt32 [OF n1])
      finally show ?thesis
        using nb cond by simp
    qed
  qed
  moreover have "getBits (snd (setBits bv offset v w)) offset w True
      = Inr (if w \<noteq> 32 \<and> js_and R (js_shl 1 (w - 1)) \<noteq> 0
         then js_or R (js_xor (- 1) (js_shl 1 w - 1)) else R)"
    by (simp add: set get bv'_def [symmetric])
  ultimately show "getBits (snd (setBits bv offset v w)) offset w True
         = Inr (signed_take_bit (nat w - 1) v)"
    by (simp only: n_def)
qed

section \<open>The frame of one write\<close>

lemma setBits_frame:
  assumes "0 \<le> offset" "offset + bits \<le> 2 ^ 31"
  shows "length (view (snd (setBits bv offset v bits))) = length (view bv)"
    and "bigEndian (snd (setBits bv offset v bits)) = bigEndian bv"
    and "0 \<le> p \<Longrightarrow> \<not> (offset \<le> p \<and> p < offset + bits)
         \<Longrightarrow> bit_at (snd (setBits bv offset v bits)) p = bit_at bv p"
proof -
  show "length (view (snd (setBits bv offset v bits))) = length (view bv)"
    "bigEndian (snd (setBits bv offset v bits)) = bigEndian bv"
    using setBits_loop_frame [of offset bits 0 bv v] assms
    by (simp_all add: setBits_def Let_def)
  show "bit_at (snd (setBits bv offset v bits)) p = bit_at bv p"
    if "0 \<le> p" "\<not> (offset \<le> p \<and> p < offset + bits)"
    using setBits_loop_frame [of offset bits 0 bv v] assms that
    by (simp add: setBits_def Let_def)
qed


section \<open>Cursor writes in terms of the engine\<close>


lemma typed_writer_is_writeBits:
  "writeBoolean b = writeBits (if b then 1 else 0) 1"
  "writeInt8 v = writeBits v 8" "writeInt16 v = writeBits v 16" "writeInt32 v = writeBits v 32"
  "writeUint8 v = writeBits v 8" "writeUint16 v = writeBits v 16" "writeUint32 v = writeBits v 32"
  by (simp_all add: fun_eq_iff writer_def writeBits_def writeBoolean_def writeInt8_def
      writeInt16_def writeInt32_def writeUint8_def writeUint16_def writeUint32_def
      setBoolean_def setInt8_def setInt16_def setInt32_def setUint8_def setUint16_def
      setUint32_def)

lemma writeFloat32_is_writeBits:
  "writeFloat32 f = writeBits (dv_getUint32 (dv_setFloat32 scratch0 0 f) 0) 32"
  by (simp add: fun_eq_iff writer_def writeBits_def writeFloat32_def setFloat32_def Let_def)

section \<open>Typed accessors inside the buffer\<close>

text \<open>
  The engine's only failure is its range check, so an accessor whose bits lie inside
  the buffer returns a value, and \<open>reader\<close> and \<open>writer\<close> pass that outcome on
  and move the index.
\<close>

lemma typed_getter_ok:
  "offset + 1 \<le> byteLength bv * 8 \<Longrightarrow> \<exists>x. getBoolean bv offset = Inr x"
  "offset + 8 \<le> byteLength bv * 8 \<Longrightarrow> \<exists>x. getInt8 bv offset = Inr x"
  "offset + 16 \<le> byteLength bv * 8 \<Longrightarrow> \<exists>x. getInt16 bv offset = Inr x"
  "offset + 32 \<le> byteLength bv * 8 \<Longrightarrow> \<exists>x. getInt32 bv offset = Inr x"
  "offset + 8 \<le> byteLength bv * 8 \<Longrightarrow> \<exists>x. getUint8 bv offset = Inr x"
  "offset + 16 \<le> byteLength bv * 8 \<Longrightarrow> \<exists>x. getUint16 bv offset = Inr x"
  "offset + 32 \<le> byteLength bv * 8 \<Longrightarrow> \<exists>x. getUint32 bv offset = Inr x"
  "offset + 32 \<le> byteLength bv * 8 \<Longrightarrow> \<exists>x. getFloat32 bv offset = Inr x"
  "offset + 64 \<le> byteLength bv * 8 \<Longrightarrow> \<exists>x. getFloat64 bv offset = Inr x"
  by (simp_all add: getBoolean_def getInt8_def getInt16_def getInt32_def getUint8_def
      getUint16_def getUint32_def getFloat32_def getFloat64_def getBits_def byteLength_def
      Let_def)

lemma typed_setter_ok:
  "offset + 1 \<le> byteLength bv * 8 \<Longrightarrow> fst (setBoolean bv offset b) = Inr ()"
  "offset + 8 \<le> byteLength bv * 8 \<Longrightarrow> fst (setInt8 bv offset v) = Inr ()"
  "offset + 16 \<le> byteLength bv * 8 \<Longrightarrow> fst (setInt16 bv offset v) = Inr ()"
  "offset + 32 \<le> byteLength bv * 8 \<Longrightarrow> fst (setInt32 bv offset v) = Inr ()"
  "offset + 8 \<le> byteLength bv * 8 \<Longrightarrow> fst (setUint8 bv offset v) = Inr ()"
  "offset + 16 \<le> byteLength bv * 8 \<Longrightarrow> fst (setUint16 bv offset v) = Inr ()"
  "offset + 32 \<le> byteLength bv * 8 \<Longrightarrow> fst (setUint32 bv offset v) = Inr ()"
  "offset + 32 \<le> byteLength bv * 8 \<Longrightarrow> fst (setFloat32 bv offset f) = Inr ()"
  by (simp_all add: setBoolean_def setInt8_def setInt16_def setInt32_def setUint8_def
      setUint16_def setUint32_def setFloat32_def setBits_def byteLength_def Let_def)

lemma length_setBits_loop:
  "length (view (setBits_loop bv bits offset val i)) = length (view bv)"
proof (induction bv bits offset val i rule: setBits_loop.induct)
  case (1 bv bits offset val i)
  show ?case
  proof (cases "i < bits")
    case False
    then show ?thesis
      by (simp add: setBits_loop_done)
  next
    case True
    note ih = 1(1) [OF True refl refl refl refl _ refl refl refl refl refl]
      1(2) [OF True refl refl refl refl _ refl refl refl refl refl]
    show ?thesis
    proof (cases "bigEndian bv")
      case True
      with \<open>i < bits\<close> ih(1) show ?thesis
        by (subst setBits_loop.simps) (simp add: Let_def)
    next
      case False
      with \<open>i < bits\<close> ih(2) show ?thesis
        by (subst setBits_loop.simps) (simp add: Let_def)
    qed
  qed
qed

lemma setFloat64_ok:
  assumes "offset + 64 \<le> byteLength bv * 8"
  shows "fst (setFloat64 bv offset d) = Inr ()"
  using assms
  by (simp add: setFloat64_def setBits_def byteLength_def Let_def length_setBits_loop)

lemma reader_ok:
  "p_index s + sz \<le> p_length s \<Longrightarrow> name (h (p_view s)) (p_index s) = Inr x
   \<Longrightarrow> reader name sz h s = (Inr x, s\<lparr>p_index := p_index s + sz\<rparr>)"
  by (simp add: reader_def)

lemma writer_ok:
  "fst (name (h (p_view s)) (p_index s) x) = Inr ()
   \<Longrightarrow> writer name sz x h s
       = (Inr (), h(p_view s := snd (name (h (p_view s)) (p_index s) x)),
          s\<lparr>p_index := p_index s + sz\<rparr>)"
  by (cases "name (h (p_view s)) (p_index s) x") (auto simp: writer_def split: sum.split)

lemma typed_read_ok:
  "p_index s + 1 \<le> p_length s \<Longrightarrow> p_index s + 1 \<le> byteLength (h (p_view s)) * 8
   \<Longrightarrow> \<exists>x. getBoolean (h (p_view s)) (p_index s) = Inr x
          \<and> readBoolean h s = (Inr x, s\<lparr>p_index := p_index s + 1\<rparr>)"
  "p_index s + 8 \<le> p_length s \<Longrightarrow> p_index s + 8 \<le> byteLength (h (p_view s)) * 8
   \<Longrightarrow> \<exists>x. getInt8 (h (p_view s)) (p_index s) = Inr x
          \<and> readInt8 h s = (Inr x, s\<lparr>p_index := p_index s + 8\<rparr>)"
  "p_index s + 16 \<le> p_length s \<Longrightarrow> p_index s + 16 \<le> byteLength (h (p_view s)) * 8
   \<Longrightarrow> \<exists>x. getInt16 (h (p_view s)) (p_index s) = Inr x
          \<and> readInt16 h s = (Inr x, s\<lparr>p_index := p_index s + 16\<rparr>)"
  "p_index s + 32 \<le> p_length s \<Longrightarrow> p_index s + 32 \<le> byteLength (h (p_view s)) * 8
   \<Longrightarrow> \<exists>x. getInt32 (h (p_view s)) (p_index s) = Inr x
          \<and> readInt32 h s = (Inr x, s\<lparr>p_index := p_index s + 32\<rparr>)"
  "p_index s + 8 \<le> p_length s \<Longrightarrow> p_index s + 8 \<le> byteLength (h (p_view s)) * 8
   \<Longrightarrow> \<exists>x. getUint8 (h (p_view s)) (p_index s) = Inr x
          \<and> readUint8 h s = (Inr x, s\<lparr>p_index := p_index s + 8\<rparr>)"
  "p_index s + 16 \<le> p_length s \<Longrightarrow> p_index s + 16 \<le> byteLength (h (p_view s)) * 8
   \<Longrightarrow> \<exists>x. getUint16 (h (p_view s)) (p_index s) = Inr x
          \<and> readUint16 h s = (Inr x, s\<lparr>p_index := p_index s + 16\<rparr>)"
  "p_index s + 32 \<le> p_length s \<Longrightarrow> p_index s + 32 \<le> byteLength (h (p_view s)) * 8
   \<Longrightarrow> \<exists>x. getUint32 (h (p_view s)) (p_index s) = Inr x
          \<and> readUint32 h s = (Inr x, s\<lparr>p_index := p_index s + 32\<rparr>)"
  "p_index s + 32 \<le> p_length s \<Longrightarrow> p_index s + 32 \<le> byteLength (h (p_view s)) * 8
   \<Longrightarrow> \<exists>x. getFloat32 (h (p_view s)) (p_index s) = Inr x
          \<and> readFloat32 h s = (Inr x, s\<lparr>p_index := p_index s + 32\<rparr>)"
  "p_index s + 64 \<le> p_length s \<Longrightarrow> p_index s + 64 \<le> byteLength (h (p_view s)) * 8
   \<Longrightarrow> \<exists>x. getFloat64 (h (p_view s)) (p_index s) = Inr x
          \<and> readFloat64 h s = (Inr x, s\<lparr>p_index := p_index s + 64\<rparr>)"
  unfolding readBoolean_def readInt8_def readInt16_def readInt32_def readUint8_def
    readUint16_def readUint32_def readFloat32_def readFloat64_def
  using typed_getter_ok [of "p_index s" "h (p_view s)"] reader_ok [of s _ _ h]
  by metis+

lemma typed_write_ok:
  "p_index s + 1 \<le> byteLength (h (p_view s)) * 8
   \<Longrightarrow> writeBoolean b h s
       = (Inr (), h(p_view s := snd (setBoolean (h (p_view s)) (p_index s) b)),
          s\<lparr>p_index := p_index s + 1\<rparr>)"
  "p_index s + 8 \<le> byteLength (h (p_view s)) * 8
   \<Longrightarrow> writeInt8 v h s
       = (Inr (), h(p_view s := snd (setInt8 (h (p_view s)) (p_index s) v)),
          s\<lparr>p_index := p_index s + 8\<rparr>)"
  "p_index s + 16 \<le> byteLength (h (p_view s)) * 8
   \<Longrightarrow> writeInt16 v h s
       = (Inr (), h(p_view s := snd (setInt16 (h (p_view s)) (p_index s) v)),
          s\<lparr>p_index := p_index s + 16\<rparr>)"
  "p_index s + 32 \<le> byteLength (h (p_view s)) * 8
   \<Longrightarrow> writeInt32 v h s
       = (Inr (), h(p_view s := snd (setInt32 (h (p_view s)) (p_index s) v)),
          s\<lparr>p_index := p_index s + 32\<rparr>)"
  "p_index s + 8 \<le> byteLength (h (p_view s)) * 8
   \<Longrightarrow> writeUint8 v h s
       = (Inr (), h(p_view s := snd (setUint8 (h (p_view s)) (p_index s) v)),
          s\<lparr>p_index := p_index s + 8\<rparr>)"
  "p_index s + 16 \<le> byteLength (h (p_view s)) * 8
   \<Longrightarrow> writeUint16 v h s
       = (Inr (), h(p_view s := snd (setUint16 (h (p_view s)) (p_index s) v)),
          s\<lparr>p_index := p_index s + 16\<rparr>)"
  "p_index s + 32 \<le> byteLength (h (p_view s)) * 8
   \<Longrightarrow> writeUint32 v h s
       = (Inr (), h(p_view s := snd (setUint32 (h (p_view s)) (p_index s) v)),
          s\<lparr>p_index := p_index s + 32\<rparr>)"
  "p_index s + 32 \<le> byteLength (h (p_view s)) * 8
   \<Longrightarrow> writeFloat32 f h s
       = (Inr (), h(p_view s := snd (setFloat32 (h (p_view s)) (p_index s) f)),
          s\<lparr>p_index := p_index s + 32\<rparr>)"
  "p_index s + 64 \<le> byteLength (h (p_view s)) * 8
   \<Longrightarrow> writeFloat64 d h s
       = (Inr (), h(p_view s := snd (setFloat64 (h (p_view s)) (p_index s) d)),
          s\<lparr>p_index := p_index s + 64\<rparr>)"
  unfolding writeBoolean_def writeInt8_def writeInt16_def writeInt32_def writeUint8_def
    writeUint16_def writeUint32_def writeFloat32_def writeFloat64_def
  by (intro writer_ok typed_setter_ok setFloat64_ok; assumption)+

section \<open>The frame of a 64-bit float write\<close>

lemma setFloat64_frame:
  assumes "0 \<le> offset" "offset + 64 \<le> 2 ^ 31"
  shows "length (view (snd (setFloat64 bv offset d))) = length (view bv)"
    and "bigEndian (snd (setFloat64 bv offset d)) = bigEndian bv"
    and "0 \<le> p \<Longrightarrow> \<not> (offset \<le> p \<and> p < offset + 64)
         \<Longrightarrow> bit_at (snd (setFloat64 bv offset d)) p = bit_at bv p"
proof -
  define hi where "hi = dv_getUint32 (dv_setFloat64 scratch0 0 d) 0"
  define lo where "lo = dv_getUint32 (dv_setFloat64 scratch0 0 d) 4"
  define bv1 where "bv1 = snd (setBits bv offset hi 32)"
  define bv2 where "bv2 = snd (setBits bv1 offset lo 32)"
  have b: "offset + 32 \<le> 2 ^ 31"
    using assms(2) by simp
  note f1 = setBits_frame [OF assms(1) b, where bv = bv and v = hi, folded bv1_def]
  note f2 = setBits_frame [OF assms(1) b, where bv = bv1 and v = lo, folded bv2_def]
  have r: "snd (setFloat64 bv offset d) = bv1 \<or> snd (setFloat64 bv offset d) = bv2"
    by (simp add: setFloat64_def Let_def hi_def lo_def bv1_def bv2_def
        split: prod.split sum.split)
  show "length (view (snd (setFloat64 bv offset d))) = length (view bv)"
    using r f1(1) f2(1) by auto
  show "bigEndian (snd (setFloat64 bv offset d)) = bigEndian bv"
    using r f1(2) f2(2) by auto
  show "bit_at (snd (setFloat64 bv offset d)) p = bit_at bv p"
    if p: "0 \<le> p" "\<not> (offset \<le> p \<and> p < offset + 64)"
  proof -
    from p have q: "\<not> (offset \<le> p \<and> p < offset + 32)"
      by auto
    have "bit_at bv1 p = bit_at bv p" "bit_at bv2 p = bit_at bv1 p"
      using f1(3) [OF p(1) q] f2(3) [OF p(1) q] .
    with r show ?thesis
      by auto
  qed
qed

lemma writer_heap:
  "fst (snd (writer name sz x h s)) = h(p_view s := snd (name (h (p_view s)) (p_index s) x))"
  by (cases "name (h (p_view s)) (p_index s) x") (auto simp: writer_def split: sum.split)

section \<open>Bytes from bits\<close>

lemma byte_unchanged:
  assumes be: "bigEndian bv' = bigEndian bv"
    and bits: "\<And>p. 8 * int k \<le> p \<Longrightarrow> p < 8 * int k + 8 \<Longrightarrow> bit_at bv' p = bit_at bv p"
  shows "view bv' ! k = view bv ! k"
proof (rule bit_word_eqI)
  fix j :: nat
  assume "j < LENGTH(8)"
  then have j: "j < 8"
    by simp
  define t where "t = (if bigEndian bv then 7 - j else j)"
  have t: "t < 8" "(if bigEndian bv then 7 - t else t) = j"
    using j by (auto simp: t_def)
  have k: "(8 * int k) mod 8 = 0" "(8 * int k) div 8 = int k"
    by simp_all
  have at: "bit_at b (8 * int k + int t) = bit (view b ! k) (if bigEndian b then 7 - t else t)" for b
    using bit_at_chunk [of "8 * int k" "int t" b] t(1) by (simp add: k)
  have "bit_at bv' (8 * int k + int t) = bit_at bv (8 * int k + int t)"
    using t(1) by (intro bits) simp_all
  then show "bit (view bv' ! k) j = bit (view bv ! k) j"
    unfolding at be t(2) .
qed

section \<open>The bit engine's example and bounds\<close>

text \<open>
  Claim C9. On the 3-byte buffer \<open>[0b10110010, 0, 0]\<close>, \<open>getBits(0, 4, false)\<close>
  returns 11 in big-endian mode and 2 in little-endian mode.
\<close>

theorem getBits_example_nibble:
  "getBits \<lparr>view = [0xB2, 0x00, 0x00], bigEndian = True\<rparr> 0 4 False = Inr 11
   \<and> getBits \<lparr>view = [0xB2, 0x00, 0x00], bigEndian = False\<rparr> 0 4 False = Inr 2"
  by code_simp

text \<open>
  Claim C2. For every offset and width, \<open>getBits\<close> and \<open>setBits\<close> fail, with
  OutOfRange, if and only if \<open>offset + bits\<close> exceeds the view's bit length; a failing
  \<open>setBits\<close> leaves the engine, and so every byte of the buffer, as it was.
\<close>

theorem bits_out_of_range_iff:
  "((\<exists>e. getBits bv offset bits isSigned = Inl e) \<longleftrightarrow> offset + bits > byteLength bv * 8)
   \<and> (getBits bv offset bits isSigned = Inl OutOfRange \<longleftrightarrow> offset + bits > byteLength bv * 8)
   \<and> ((\<exists>e. fst (setBits bv offset val bits) = Inl e) \<longleftrightarrow> offset + bits > byteLength bv * 8)
   \<and> (fst (setBits bv offset val bits) = Inl OutOfRange \<longleftrightarrow> offset + bits > byteLength bv * 8)
   \<and> (offset + bits > byteLength bv * 8 \<longrightarrow> snd (setBits bv offset val bits) = bv)"
  by (auto simp: getBits_def setBits_def byteLength_def Let_def)

theorem bits_out_of_range_iff_witness:
  "(4::int) + 8 > byteLength \<lparr>view = [0xAB], bigEndian = False\<rparr> * 8
   \<and> getBits \<lparr>view = [0xAB], bigEndian = False\<rparr> 4 8 False = Inl OutOfRange
   \<and> fst (setBits \<lparr>view = [0xAB], bigEndian = False\<rparr> 4 0xFF 8) = Inl OutOfRange
   \<and> snd (setBits \<lparr>view = [0xAB], bigEndian = False\<rparr> 4 0xFF 8)
       = \<lparr>view = [0xAB], bigEndian = False\<rparr>"
proof -
  have gt: "(4::int) + 8 > byteLength \<lparr>view = [0xAB], bigEndian = False\<rparr> * 8"
    by (simp add: byteLength_def)
  with bits_out_of_range_iff [of "\<lparr>view = [0xAB], bigEndian = False\<rparr>" 4 8 False "0xFF"]
  show ?thesis
    by blast
qed

section \<open>Sub-streams\<close>

text \<open>
  Claim C5. \<open>readBitStream(n)\<close> on a cursor \<open>c\<close> returns a cursor on the same engine
  object whose window starts at the absolute index of \<open>c\<close> and spans \<open>n\<close> bits, so its
  window-local length is \<open>n\<close> and its window-local index is 0, and the call advances
  the index of \<open>c\<close> by \<open>n\<close>.
\<close>

theorem readBitStream_window:
  "(case readBitStream n h c of
      (sub, c') \<Rightarrow>
        p_view sub = p_view c \<and> p_startIndex sub = p_index c
        \<and> p_index sub = p_index c \<and> p_length sub = p_index c + n
        \<and> get_length sub = n \<and> get_index sub = 0
        \<and> c' = c\<lparr>p_index := p_index c + n\<rparr> \<and> get_index c' = get_index c + n)"
  by (simp add: readBitStream_def new_BitStream_def set_length_def get_length_def get_index_def
      Let_def)

section \<open>Round trip through the bit engine\<close>

text \<open>
  The engine computes byte indices and bit offsets with the 32-bit operators \<open>>> 3\<close>
  and \<open>& 7\<close>. From bit offset \<open>2 ^ 31\<close> on, the byte index \<open>offset >> 3\<close> is no longer
  \<open>offset div 8\<close>: at \<open>2 ^ 31\<close> it is \<open>- 2 ^ 28\<close>, where a write to the typed array is
  ignored and a read gives \<open>undefined\<close>. On a view of \<open>2 ^ 28 + 1\<close> bytes the offset
  \<open>2 ^ 31\<close> is within the bit length, and the bit written there does not read back.
\<close>

lemma wrapped_offset_write:
  assumes "length (view bv) = 268435457" "\<not> bigEndian bv"
  shows "setBits bv 2147483648 1 1 = (Inr (), bv)"
proof -
  have sar: "js_sar 2147483648 3 = - 268435456"
    by (simp add: js_sar_def shiftCount_def toInt32_def)
  show ?thesis
    using assms
    apply (simp add: setBits_def)
    apply (subst setBits_loop.simps)
    apply (simp add: Let_def js_and_7_mod sar view_put_def)
    apply (subst setBits_loop.simps)
    apply simp
    done
qed

lemma wrapped_offset_read:
  assumes "length (view bv) = 268435457" "\<not> bigEndian bv"
  shows "getBits bv 2147483648 1 False = Inr 0"
proof -
  have sar: "js_sar 2147483648 3 = - 268435456"
    by (simp add: js_sar_def shiftCount_def toInt32_def)
  have z: "js_or 0 (js_shl (js_and (js_sar 0 0) (js_not (js_shl 255 1))) 0) = 0"
    by (simp add: js_or_def js_shl_def js_and_def js_sar_def js_not_def shiftCount_def toInt32_def)
  show ?thesis
    using assms
    apply (simp add: getBits_def)
    apply (subst getBits_loop.simps)
    apply (simp add: Let_def js_and_7_mod sar view_at_def z)
    apply (subst getBits_loop.simps)
    apply (simp add: js_ushr0_def toInt32_def)
    done
qed

text \<open>
  Claim C1 as stated, for every offset within the view's bit length, fails at offset
  \<open>2 ^ 31\<close> of a little-endian view of \<open>2 ^ 28 + 1\<close> zero bytes: \<open>setBits(o, 1, 1)\<close>
  succeeds and \<open>getBits(o, 1, false)\<close> then returns 0.
\<close>

theorem roundtrip_wrapped_offset_counterexample:
  "(1::int) \<le> 1 \<and> (1::int) \<le> 32 \<and> (0::int) \<le> 2147483648
   \<and> 2147483648 + 1 \<le> byteLength \<lparr>view = replicate 268435457 0, bigEndian = False\<rparr> * 8
   \<and> (0::int) \<le> 1 \<and> (1::int) < 2 ^ nat 1
   \<and> fst (setBits \<lparr>view = replicate 268435457 0, bigEndian = False\<rparr> 2147483648 1 1) = Inr ()
   \<and> getBits (snd (setBits \<lparr>view = replicate 268435457 0, bigEndian = False\<rparr> 2147483648 1 1))
         2147483648 1 False = Inr 0
   \<and> getBits (snd (setBits \<lparr>view = replicate 268435457 0, bigEndian = False\<rparr> 2147483648 1 1))
         2147483648 1 False \<noteq> Inr 1"
  by (simp add: byteLength_def wrapped_offset_write wrapped_offset_read)

text \<open>
  Claim C1, amended. For every width \<open>w\<close> in \<open>[1, 32]\<close>, every value representable in
  \<open>w\<close> bits, unsigned or signed, every bit offset \<open>o \<ge> 0\<close> with \<open>o + w\<close> within the
  view's bit length and at most \<open>2 ^ 31\<close>, and both endianness settings,
  \<open>setBits(o, v, w)\<close> succeeds and \<open>getBits(o, w, signed)\<close> then returns \<open>v\<close>.
\<close>

theorem setBits_getBits_roundtrip:
  assumes "1 \<le> w" "w \<le> 32" "0 \<le> offset" "offset + w \<le> byteLength bv * 8"
    "offset + w \<le> 2 ^ 31"
  shows "fst (setBits bv offset v w) = Inr ()
    \<and> (0 \<le> v \<and> v < 2 ^ nat w
         \<longrightarrow> getBits (snd (setBits bv offset v w)) offset w False = Inr v)
    \<and> (- (2 ^ (nat w - 1)) \<le> v \<and> v < 2 ^ (nat w - 1)
         \<longrightarrow> getBits (snd (setBits bv offset v w)) offset w True = Inr v)"
proof -
  have off: "offset + w \<le> 8 * byteLength bv"
    using assms(4) by simp
  note r = getBits_of_setBits [OF assms(1-3) off assms(5), of v]
  have "take_bit (nat w) v = v" if "0 \<le> v" "v < 2 ^ nat w"
    using that by (simp add: take_bit_int_eq_self)
  moreover have "signed_take_bit (nat w - 1) v = v"
    if "- (2 ^ (nat w - 1)) \<le> v" "v < 2 ^ (nat w - 1)"
    using that by (simp add: signed_take_bit_int_eq_self)
  ultimately show ?thesis
    using r by simp
qed

theorem setBits_getBits_roundtrip_witness:
  "(1::int) \<le> 17 \<and> (17::int) \<le> 32 \<and> (0::int) \<le> 3
   \<and> 3 + 17 \<le> byteLength \<lparr>view = [0xB2, 0xF1, 0x83], bigEndian = True\<rparr> * 8
   \<and> (3::int) + 17 \<le> 2 ^ 31
   \<and> (0::int) \<le> 70000 \<and> (70000::int) < 2 ^ nat 17
   \<and> - (2 ^ (nat 17 - 1)) \<le> (- 5 :: int) \<and> (- 5 :: int) < 2 ^ (nat 17 - 1)
   \<and> getBits (snd (setBits \<lparr>view = [0xB2, 0xF1, 0x83], bigEndian = True\<rparr> 3 70000 17)) 3 17 False
       = Inr 70000
   \<and> getBits (snd (setBits \<lparr>view = [0xB2, 0xF1, 0x83], bigEndian = True\<rparr> 3 (- 5) 17)) 3 17 True
       = Inr (- 5)"
proof -
  have h: "(1::int) \<le> 17" "(17::int) \<le> 32" "(0::int) \<le> 3"
    "3 + 17 \<le> byteLength \<lparr>view = [0xB2, 0xF1, 0x83], bigEndian = True\<rparr> * 8"
    "(3::int) + 17 \<le> 2 ^ 31"
    by (simp_all add: byteLength_def)
  have v: "(0::int) \<le> 70000 \<and> (70000::int) < 2 ^ nat 17"
    "- (2 ^ (nat 17 - 1)) \<le> (- 5 :: int) \<and> (- 5 :: int) < 2 ^ (nat 17 - 1)"
    by simp_all
  from setBits_getBits_roundtrip [OF h, of 70000] setBits_getBits_roundtrip [OF h, of "- 5"] h v
  show ?thesis
    by blast
qed

section \<open>Typed reads and writes of a cursor\<close>

text \<open>
  Claim C3. Every typed read and write of a cursor is \<open>reader\<close> or \<open>writer\<close> applied to
  the engine's accessor and the type's bit width. A read that would cross the cursor's
  length fails with EndOfStream; a failed read or write leaves the cursor as it was;
  a successful one advances the index by exactly the width and changes nothing else
  of the cursor. And the calls do succeed: a typed read whose bits lie inside the
  cursor's length and inside the buffer returns the engine's value and leaves the
  index the type's width further, and a typed write whose bits lie inside the buffer
  returns normally, stores what the engine's setter stores, and leaves the index the
  type's width further.
\<close>

theorem typed_cursor_advance:
  "(p_index s + sz > p_length s \<longrightarrow> reader name sz h s = (Inl EndOfStream, s))
   \<and> (case reader name sz h s of
         (Inl e, s') \<Rightarrow> s' = s
       | (Inr val, s') \<Rightarrow> s' = s\<lparr>p_index := p_index s + sz\<rparr>)
   \<and> (case writer name' sz val' h s of
         (Inl e, h', s') \<Rightarrow> s' = s
       | (Inr u, h', s') \<Rightarrow> s' = s\<lparr>p_index := p_index s + sz\<rparr>)
   \<and> readBoolean = reader getBoolean 1
   \<and> readInt8 = reader getInt8 8 \<and> readInt16 = reader getInt16 16 \<and> readInt32 = reader getInt32 32
   \<and> readUint8 = reader getUint8 8 \<and> readUint16 = reader getUint16 16
   \<and> readUint32 = reader getUint32 32
   \<and> readFloat32 = reader getFloat32 32 \<and> readFloat64 = reader getFloat64 64
   \<and> writeBoolean = writer setBoolean 1
   \<and> writeInt8 = writer setInt8 8 \<and> writeInt16 = writer setInt16 16
   \<and> writeInt32 = writer setInt32 32
   \<and> writeUint8 = writer setUint8 8 \<and> writeUint16 = writer setUint16 16
   \<and> writeUint32 = writer setUint32 32
   \<and> writeFloat32 = writer setFloat32 32 \<and> writeFloat64 = writer setFloat64 64
   \<and> (p_index s + 1 \<le> p_length s \<and> p_index s + 1 \<le> byteLength (h (p_view s)) * 8
        \<longrightarrow> (\<exists>x. getBoolean (h (p_view s)) (p_index s) = Inr x
                  \<and> readBoolean h s = (Inr x, s\<lparr>p_index := p_index s + 1\<rparr>)))
   \<and> (p_index s + 8 \<le> p_length s \<and> p_index s + 8 \<le> byteLength (h (p_view s)) * 8
        \<longrightarrow> (\<exists>x. getInt8 (h (p_view s)) (p_index s) = Inr x
                  \<and> readInt8 h s = (Inr x, s\<lparr>p_index := p_index s + 8\<rparr>)))
   \<and> (p_index s + 16 \<le> p_length s \<and> p_index s + 16 \<le> byteLength (h (p_view s)) * 8
        \<longrightarrow> (\<exists>x. getInt16 (h (p_view s)) (p_index s) = Inr x
                  \<and> readInt16 h s = (Inr x, s\<lparr>p_index := p_index s + 16\<rparr>)))
   \<and> (p_index s + 32 \<le> p_length s \<and> p_index s + 32 \<le> byteLength (h (p_view s)) * 8
        \<longrightarrow> (\<exists>x. getInt32 (h (p_view s)) (p_index s) = Inr x
                  \<and> readInt32 h s = (Inr x, s\<lparr>p_index := p_index s + 32\<rparr>)))
   \<and> (p_index s + 8 \<le> p_length s \<and> p_index s + 8 \<le> byteLength (h (p_view s)) * 8
        \<longrightarrow> (\<exists>x. getUint8 (h (p_view s)) (p_index s) = Inr x
                  \<and> readUint8 h s = (Inr x, s\<lparr>p_index := p_index s + 8\<rparr>)))
   \<and> (p_index s + 16 \<le> p_length s \<and> p_index s + 16 \<le> byteLength (h (p_view s)) * 8
        \<longrightarrow> (\<exists>x. getUint16 (h (p_view s)) (p_index s) = Inr x
                  \<and> readUint16 h s = (Inr x, s\<lparr>p_index := p_index s + 16\<rparr>)))
   \<and> (p_index s + 32 \<le> p_length s \<and> p_index s + 32 \<le> byteLength (h (p_view s)) * 8
        \<longrightarrow> (\<exists>x. getUint32 (h (p_view s)) (p_index s) = Inr x
                  \<and> readUint32 h s = (Inr x, s\<lparr>p_index := p_index s + 32\<rparr>)))
   \<and> (p_index s + 32 \<le> p_length s \<and> p_index s + 32 \<le> byteLength (h (p_view s)) * 8
        \<longrightarrow> (\<exists>x. getFloat32 (h (p_view s)) (p_index s) = Inr x
                  \<and> readFloat32 h s = (Inr x, s\<lparr>p_index := p_index s + 32\<rparr>)))
   \<and> (p_index s + 64 \<le> p_length s \<and> p_index s + 64 \<le> byteLength (h (p_view s)) * 8
        \<longrightarrow> (\<exists>x. getFloat64 (h (p_view s)) (p_index s) = Inr x
                  \<and> readFloat64 h s = (Inr x, s\<lparr>p_index := p_index s + 64\<rparr>)))
   \<and> (p_index s + 1 \<le> byteLength (h (p_view s)) * 8
        \<longrightarrow> writeBoolean b h s
            = (Inr (), h(p_view s := snd (setBoolean (h (p_view s)) (p_index s) b)),
               s\<lparr>p_index := p_index s + 1\<rparr>))
   \<and> (p_index s + 8 \<le> byteLength (h (p_view s)) * 8
        \<longrightarrow> writeInt8 v h s
            = (Inr (), h(p_view s := snd (setInt8 (h (p_view s)) (p_index s) v)),
               s\<lparr>p_index := p_index s + 8\<rparr>))
   \<and> (p_index s + 16 \<le> byteLength (h (p_view s)) * 8
        \<longrightarrow> writeInt16 v h s
            = (Inr (), h(p_view s := snd (setInt16 (h (p_view s)) (p_index s) v)),
               s\<lparr>p_index := p_index s + 16\<rparr>))
   \<and> (p_index s + 32 \<le> byteLength (h (p_view s)) * 8
        \<longrightarrow> writeInt32 v h s
            = (Inr (), h(p_view s := snd (setInt32 (h (p_view s)) (p_index s) v)),
               s\<lparr>p_index := p_index s + 32\<rparr>))
   \<and> (p_index s + 8 \<le> byteLength (h (p_view s)) * 8
        \<longrightarrow> writeUint8 v h s
            = (Inr (), h(p_view s := snd (setUint8 (h (p_view s)) (p_index s) v)),
               s\<lparr>p_index := p_index s + 8\<rparr>))
   \<and> (p_index s + 16 \<le> byteLength (h (p_view s)) * 8
        \<longrightarrow> writeUint16 v h s
            = (Inr (), h(p_view s := snd (setUint16 (h (p_view s)) (p_index s) v)),
               s\<lparr>p_index := p_index s + 16\<rparr>))
   \<and> (p_index s + 32 \<le> byteLength (h (p_view s)) * 8
        \<longrightarrow> writeUint32 v h s
            = (Inr (), h(p_view s := snd (setUint32 (h (p_view s)) (p_index s) v)),
               s\<lparr>p_index := p_index s + 32\<rparr>))
   \<and> (p_index s + 32 \<le> byteLength (h (p_view s)) * 8
        \<longrightarrow> writeFloat32 f h s
            = (Inr (), h(p_view s := snd (setFloat32 (h (p_view s)) (p_index s) f)),
               s\<lparr>p_index := p_index s + 32\<rparr>))
   \<and> (p_index s + 64 \<le> byteLength (h (p_view s)) * 8
        \<longrightarrow> writeFloat64 d h s
            = (Inr (), h(p_view s := snd (setFloat64 (h (p_view s)) (p_index s) d)),
               s\<lparr>p_index := p_index s + 64\<rparr>))"
proof -
  have generic: "(p_index s + sz > p_length s \<longrightarrow> reader name sz h s = (Inl EndOfStream, s))
   \<and> (case reader name sz h s of
         (Inl e, s') \<Rightarrow> s' = s
       | (Inr val, s') \<Rightarrow> s' = s\<lparr>p_index := p_index s + sz\<rparr>)
   \<and> (case writer name' sz val' h s of
         (Inl e, h', s') \<Rightarrow> s' = s
       | (Inr u, h', s') \<Rightarrow> s' = s\<lparr>p_index := p_index s + sz\<rparr>)"
    by (simp add: reader_def writer_def split: sum.split prod.split)
  have table: "readBoolean = reader getBoolean 1
   \<and> readInt8 = reader getInt8 8 \<and> readInt16 = reader getInt16 16 \<and> readInt32 = reader getInt32 32
   \<and> readUint8 = reader getUint8 8 \<and> readUint16 = reader getUint16 16
   \<and> readUint32 = reader getUint32 32
   \<and> readFloat32 = reader getFloat32 32 \<and> readFloat64 = reader getFloat64 64
   \<and> writeBoolean = writer setBoolean 1
   \<and> writeInt8 = writer setInt8 8 \<and> writeInt16 = writer setInt16 16
   \<and> writeInt32 = writer setInt32 32
   \<and> writeUint8 = writer setUint8 8 \<and> writeUint16 = writer setUint16 16
   \<and> writeUint32 = writer setUint32 32
   \<and> writeFloat32 = writer setFloat32 32 \<and> writeFloat64 = writer setFloat64 64"
    by (simp only: readBoolean_def readInt8_def readInt16_def readInt32_def readUint8_def
        readUint16_def readUint32_def readFloat32_def readFloat64_def writeBoolean_def
        writeInt8_def writeInt16_def writeInt32_def writeUint8_def writeUint16_def
        writeUint32_def writeFloat32_def writeFloat64_def simp_thms)
  have ok: "(p_index s + 1 \<le> p_length s \<and> p_index s + 1 \<le> byteLength (h (p_view s)) * 8
        \<longrightarrow> (\<exists>x. getBoolean (h (p_view s)) (p_index s) = Inr x
                  \<and> readBoolean h s = (Inr x, s\<lparr>p_index := p_index s + 1\<rparr>)))
   \<and> (p_index s + 8 \<le> p_length s \<and> p_index s + 8 \<le> byteLength (h (p_view s)) * 8
        \<longrightarrow> (\<exists>x. getInt8 (h (p_view s)) (p_index s) = Inr x
                  \<and> readInt8 h s = (Inr x, s\<lparr>p_index := p_index s + 8\<rparr>)))
   \<and> (p_index s + 16 \<le> p_length s \<and> p_index s + 16 \<le> byteLength (h (p_view s)) * 8
        \<longrightarrow> (\<exists>x. getInt16 (h (p_view s)) (p_index s) = Inr x
                  \<and> readInt16 h s = (Inr x, s\<lparr>p_index := p_index s + 16\<rparr>)))
   \<and> (p_index s + 32 \<le> p_length s \<and> p_index s + 32 \<le> byteLength (h (p_view s)) * 8
        \<longrightarrow> (\<exists>x. getInt32 (h (p_view s)) (p_index s) = Inr x
                  \<and> readInt32 h s = (Inr x, s\<lparr>p_index := p_index s + 32\<rparr>)))
   \<and> (p_index s + 8 \<le> p_length s \<and> p_index s + 8 \<le> byteLength (h (p_view s)) * 8
        \<longrightarrow> (\<exists>x. getUint8 (h (p_view s)) (p_index s) = Inr x
                  \<and> readUint8 h s = (Inr x, s\<lparr>p_index := p_index s + 8\<rparr>)))
   \<and> (p_index s + 16 \<le> p_length s \<and> p_index s + 16 \<le> byteLength (h (p_view s)) * 8
        \<longrightarrow> (\<exists>x. getUint16 (h (p_view s)) (p_index s) = Inr x
                  \<and> readUint16 h s = (Inr x, s\<lparr>p_index := p_index s + 16\<rparr>)))
   \<and> (p_index s + 32 \<le> p_length s \<and> p_index s + 32 \<le> byteLength (h (p_view s)) * 8
        \<longrightarrow> (\<exists>x. getUint32 (h (p_view s)) (p_index s) = Inr x
                  \<and> readUint32 h s = (Inr x, s\<lparr>p_index := p_index s + 32\<rparr>)))
   \<and> (p_index s + 32 \<le> p_length s \<and> p_index s + 32 \<le> byteLength (h (p_view s)) * 8
        \<longrightarrow> (\<exists>x. getFloat32 (h (p_view s)) (p_index s) = Inr x
                  \<and> readFloat32 h s = (Inr x, s\<lparr>p_index := p_index s + 32\<rparr>)))
   \<and> (p_index s + 64 \<le> p_length s \<and> p_index s + 64 \<le> byteLength (h (p_view s)) * 8
        \<longrightarrow> (\<exists>x. getFloat64 (h (p_view s)) (p_index s) = Inr x
                  \<and> readFloat64 h s = (Inr x, s\<lparr>p_index := p_index s + 64\<rparr>)))
   \<and> (p_index s + 1 \<le> byteLength (h (p_view s)) * 8
        \<longrightarrow> writeBoolean b h s
            = (Inr (), h(p_view s := snd (setBoolean (h (p_view s)) (p_index s) b)),
               s\<lparr>p_index := p_index s + 1\<rparr>))
   \<and> (p_index s + 8 \<le> byteLength (h (p_view s)) * 8
        \<longrightarrow> writeInt8 v h s
            = (Inr (), h(p_view s := snd (setInt8 (h (p_view s)) (p_index s) v)),
               s\<lparr>p_index := p_index s + 8\<rparr>))
   \<and> (p_index s + 16 \<le> byteLength (h (p_view s)) * 8
        \<longrightarrow> writeInt16 v h s
            = (Inr (), h(p_view s := snd (setInt16 (h (p_view s)) (p_index s) v)),
               s\<lparr>p_index := p_index s + 16\<rparr>))
   \<and> (p_index s + 32 \<le> byteLength (h (p_view s)) * 8
        \<longrightarrow> writeInt32 v h s
            = (Inr (), h(p_view s := snd (setInt32 (h (p_view s)) (p_index s) v)),
               s\<lparr>p_index := p_index s + 32\<rparr>))
   \<and> (p_index s + 8 \<le> byteLength (h (p_view s)) * 8
        \<longrightarrow> writeUint8 v h s
            = (Inr (), h(p_view s := snd (setUint8 (h (p_view s)) (p_index s) v)),
               s\<lparr>p_index := p_index s + 8\<rparr>))
   \<and> (p_index s + 16 \<le> byteLength (h (p_view s)) * 8
        \<longrightarrow> writeUint16 v h s
            = (Inr (), h(p_view s := snd (setUint16 (h (p_view s)) (p_index s) v)),
               s\<lparr>p_index := p_index s + 16\<rparr>))
   \<and> (p_index s + 32 \<le> byteLength (h (p_view s)) * 8
        \<longrightarrow> writeUint32 v h s
            = (Inr (), h(p_view s := snd (setUint32 (h (p_view s)) (p_index s) v)),
               s\<lparr>p_index := p_index s + 32\<rparr>))
   \<and> (p_index s + 32 \<le> byteLength (h (p_view s)) * 8
        \<longrightarrow> writeFloat32 f h s
            = (Inr (), h(p_view s := snd (setFloat32 (h (p_view s)) (p_index s) f)),
               s\<lparr>p_index := p_index s + 32\<rparr>))
   \<and> (p_index s + 64 \<le> byteLength (h (p_view s)) * 8
        \<longrightarrow> writeFloat64 d h s
            = (Inr (), h(p_view s := snd (setFloat64 (h (p_view s)) (p_index s) d)),
               s\<lparr>p_index := p_index s + 64\<rparr>))"
    by (intro conjI impI; (elim conjE)?; (rule typed_read_ok typed_write_ok; assumption))
  from generic table ok show ?thesis
    by (elim conjE) (intro conjI; assumption)
qed

theorem typed_cursor_advance_witness:
  "p_index \<lparr>p_view = 0, p_startIndex = 0, p_length = 8, p_index = 0\<rparr> + 8 \<le> p_length \<lparr>p_view = 0, p_startIndex = 0, p_length = 8, p_index = 0\<rparr>
   \<and> p_index \<lparr>p_view = 0, p_startIndex = 0, p_length = 8, p_index = 0\<rparr> + 8 \<le> byteLength ((\<lambda>r. \<lparr>view = [0x41], bigEndian = False\<rparr>) (p_view \<lparr>p_view = 0, p_startIndex = 0, p_length = 8, p_index = 0\<rparr>)) * 8
   \<and> readUint8 (\<lambda>r. \<lparr>view = [0x41], bigEndian = False\<rparr>) \<lparr>p_view = 0, p_startIndex = 0, p_length = 8, p_index = 0\<rparr>
       = (Inr 0x41, \<lparr>p_view = 0, p_startIndex = 0, p_length = 8, p_index = 8\<rparr>)
   \<and> fst (writeUint8 0x42 (\<lambda>r. \<lparr>view = [0x41], bigEndian = False\<rparr>) \<lparr>p_view = 0, p_startIndex = 0, p_length = 8, p_index = 0\<rparr>) = Inr ()
   \<and> view (fst (snd (writeUint8 0x42 (\<lambda>r. \<lparr>view = [0x41], bigEndian = False\<rparr>) \<lparr>p_view = 0, p_startIndex = 0, p_length = 8, p_index = 0\<rparr>)) 0) = [0x42]
   \<and> snd (snd (writeUint8 0x42 (\<lambda>r. \<lparr>view = [0x41], bigEndian = False\<rparr>) \<lparr>p_view = 0, p_startIndex = 0, p_length = 8, p_index = 0\<rparr>))
       = \<lparr>p_view = 0, p_startIndex = 0, p_length = 8, p_index = 8\<rparr>
   \<and> p_index \<lparr>p_view = 0, p_startIndex = 0, p_length = 8, p_index = 8\<rparr> + 8 > p_length \<lparr>p_view = 0, p_startIndex = 0, p_length = 8, p_index = 8\<rparr>
   \<and> reader getUint8 8 (\<lambda>r. \<lparr>view = [0x41], bigEndian = False\<rparr>) \<lparr>p_view = 0, p_startIndex = 0, p_length = 8, p_index = 8\<rparr>
       = (Inl EndOfStream, \<lparr>p_view = 0, p_startIndex = 0, p_length = 8, p_index = 8\<rparr>)"
proof -
  note t = typed_cursor_advance [where h = "(\<lambda>r. \<lparr>view = [0x41], bigEndian = False\<rparr>)" and name = getUint8 and sz = 8]
  have h: "p_index \<lparr>p_view = 0, p_startIndex = 0, p_length = 8, p_index = 0\<rparr> + 8 \<le> p_length \<lparr>p_view = 0, p_startIndex = 0, p_length = 8, p_index = 0\<rparr>"
    "p_index \<lparr>p_view = 0, p_startIndex = 0, p_length = 8, p_index = 0\<rparr> + 8 \<le> byteLength ((\<lambda>r. \<lparr>view = [0x41], bigEndian = False\<rparr>) (p_view \<lparr>p_view = 0, p_startIndex = 0, p_length = 8, p_index = 0\<rparr>)) * 8"
    by (simp_all add: byteLength_def)
  have g: "getUint8 ((\<lambda>r. \<lparr>view = [0x41], bigEndian = False\<rparr>) (p_view \<lparr>p_view = 0, p_startIndex = 0, p_length = 8, p_index = 0\<rparr>)) (p_index \<lparr>p_view = 0, p_startIndex = 0, p_length = 8, p_index = 0\<rparr>) = Inr 0x41"
    by code_simp
  have st: "snd (setUint8 ((\<lambda>r. \<lparr>view = [0x41], bigEndian = False\<rparr>) (p_view \<lparr>p_view = 0, p_startIndex = 0, p_length = 8, p_index = 0\<rparr>)) (p_index \<lparr>p_view = 0, p_startIndex = 0, p_length = 8, p_index = 0\<rparr>) 0x42)
      = \<lparr>view = [0x42], bigEndian = False\<rparr>"
    by code_simp
  have e: "p_index \<lparr>p_view = 0, p_startIndex = 0, p_length = 8, p_index = 8\<rparr> + 8 > p_length \<lparr>p_view = 0, p_startIndex = 0, p_length = 8, p_index = 8\<rparr>"
    by simp
  have rd: "readUint8 (\<lambda>r. \<lparr>view = [0x41], bigEndian = False\<rparr>) \<lparr>p_view = 0, p_startIndex = 0, p_length = 8, p_index = 0\<rparr> = (Inr 0x41, \<lparr>p_view = 0, p_startIndex = 0, p_length = 8, p_index = 8\<rparr>)"
    using t [where s = "\<lparr>p_view = 0, p_startIndex = 0, p_length = 8, p_index = 0\<rparr>", THEN conjunct2, THEN conjunct2, THEN conjunct2] h g
    by auto
  have wr: "writeUint8 0x42 (\<lambda>r. \<lparr>view = [0x41], bigEndian = False\<rparr>) \<lparr>p_view = 0, p_startIndex = 0, p_length = 8, p_index = 0\<rparr>
      = (Inr (), (\<lambda>r. \<lparr>view = [0x41], bigEndian = False\<rparr>)(0 := \<lparr>view = [0x42], bigEndian = False\<rparr>), \<lparr>p_view = 0, p_startIndex = 0, p_length = 8, p_index = 8\<rparr>)"
    using t [where s = "\<lparr>p_view = 0, p_startIndex = 0, p_length = 8, p_index = 0\<rparr>" and v = "0x42", THEN conjunct2, THEN conjunct2, THEN conjunct2] h st
    by auto
  have fl: "reader getUint8 8 (\<lambda>r. \<lparr>view = [0x41], bigEndian = False\<rparr>) \<lparr>p_view = 0, p_startIndex = 0, p_length = 8, p_index = 8\<rparr> = (Inl EndOfStream, \<lparr>p_view = 0, p_startIndex = 0, p_length = 8, p_index = 8\<rparr>)"
    using t [where s = "\<lparr>p_view = 0, p_startIndex = 0, p_length = 8, p_index = 8\<rparr>", THEN conjunct1] e by blast
  show ?thesis
    using h rd wr e fl by simp
qed

section \<open>The cursor invariant\<close>




section \<open>Writes through a sub-stream\<close>

text \<open>
  Claim C6 as stated fails: the writers of a cursor make no check against its window.
  On a buffer of two zero bytes, the sub-stream made by \<open>readBitStream(8)\<close> has the
  window \<open>[0, 8)\<close>; \<open>writeUint16(0xFFFF)\<close> through it succeeds and sets the second
  byte, which lies outside the window.
\<close>

theorem substream_window_counterexample:
  "(case readBitStream 8 (\<lambda>r. \<lparr>view = [0x00, 0x00], bigEndian = False\<rparr>)
           (new_BitStream (\<lambda>r. \<lparr>view = [0x00, 0x00], bigEndian = False\<rparr>) 0) of
      (sub, c') \<Rightarrow>
        p_startIndex sub = 0 \<and> p_length sub = 8
        \<and> (case writeUint16 0xFFFF (\<lambda>r. \<lparr>view = [0x00, 0x00], bigEndian = False\<rparr>) sub of
             (r, h', sub') \<Rightarrow> r = Inr () \<and> view (h' (p_view sub)) = [0xFF, 0xFF]))"
  by code_simp

text \<open>
  Claim C6, amended. A write of \<open>bits\<close> bits through a cursor at the absolute index
  \<open>i \<ge> 0\<close>, with \<open>i + bits \<le> 2 ^ 31\<close>, changes no bit of its engine's bytes outside
  \<open>[i, i + bits)\<close>, no byte that lies outside that range, and neither the number of
  bytes nor the endianness flag. So a write that starts and ends inside the window of
  a sub-stream changes nothing outside the window. The typed writers are such writes,
  of their own widths; \<open>writeFloat64\<close>, which is not a single \<open>writeBits\<close>, has the
  same frame for its width of 64 bits.
\<close>

theorem substream_write_frame:
  assumes "0 \<le> p_index s" "p_index s + bits \<le> 2 ^ 31"
  shows "length (view (fst (snd (writeBits v bits h s)) (p_view s))) = length (view (h (p_view s)))
    \<and> bigEndian (fst (snd (writeBits v bits h s)) (p_view s)) = bigEndian (h (p_view s))
    \<and> (\<forall>p\<ge>0. \<not> (p_index s \<le> p \<and> p < p_index s + bits)
           \<longrightarrow> bit_at (fst (snd (writeBits v bits h s)) (p_view s)) p = bit_at (h (p_view s)) p)
    \<and> (\<forall>k. 8 * int k + 8 \<le> p_index s \<or> p_index s + bits \<le> 8 * int k
           \<longrightarrow> view (fst (snd (writeBits v bits h s)) (p_view s)) ! k = view (h (p_view s)) ! k)
    \<and> (p_startIndex s \<le> p_index s \<and> p_index s + bits \<le> p_length s
           \<longrightarrow> (\<forall>p\<ge>0. \<not> (p_startIndex s \<le> p \<and> p < p_length s)
                  \<longrightarrow> bit_at (fst (snd (writeBits v bits h s)) (p_view s)) p
                      = bit_at (h (p_view s)) p))
    \<and> writeBoolean b = writeBits (if b then 1 else 0) 1
    \<and> writeInt8 v = writeBits v 8 \<and> writeInt16 v = writeBits v 16 \<and> writeInt32 v = writeBits v 32
    \<and> writeUint8 v = writeBits v 8 \<and> writeUint16 v = writeBits v 16
    \<and> writeUint32 v = writeBits v 32
    \<and> writeFloat32 f = writeBits (dv_getUint32 (dv_setFloat32 scratch0 0 f) 0) 32
    \<and> (p_index s + 64 \<le> 2 ^ 31
           \<longrightarrow> length (view (fst (snd (writeFloat64 d h s)) (p_view s))) = length (view (h (p_view s)))
               \<and> bigEndian (fst (snd (writeFloat64 d h s)) (p_view s)) = bigEndian (h (p_view s))
               \<and> (\<forall>p\<ge>0. \<not> (p_index s \<le> p \<and> p < p_index s + 64)
                      \<longrightarrow> bit_at (fst (snd (writeFloat64 d h s)) (p_view s)) p = bit_at (h (p_view s)) p)
               \<and> (\<forall>k. 8 * int k + 8 \<le> p_index s \<or> p_index s + 64 \<le> 8 * int k
                      \<longrightarrow> view (fst (snd (writeFloat64 d h s)) (p_view s)) ! k = view (h (p_view s)) ! k)
               \<and> (p_startIndex s \<le> p_index s \<and> p_index s + 64 \<le> p_length s
                      \<longrightarrow> (\<forall>p\<ge>0. \<not> (p_startIndex s \<le> p \<and> p < p_length s)
                             \<longrightarrow> bit_at (fst (snd (writeFloat64 d h s)) (p_view s)) p
                                 = bit_at (h (p_view s)) p)))"
proof -
  define bv where "bv = h (p_view s)"
  define bv' where "bv' = snd (setBits bv (p_index s) v bits)"
  note fr = setBits_frame [OF assms, where bv = bv and v = v, folded bv'_def]
  have res: "fst (snd (writeBits v bits h s)) = h(p_view s := bv')"
    by (simp add: writeBits_def bv'_def bv_def split: prod.split sum.split)
  have bytes: "view bv' ! k = view bv ! k"
    if "8 * int k + 8 \<le> p_index s \<or> p_index s + bits \<le> 8 * int k" for k
  proof (rule byte_unchanged [OF fr(2)])
    fix p
    assume "8 * int k \<le> p" "p < 8 * int k + 8"
    with that show "bit_at bv' p = bit_at bv p"
      by (intro fr(3)) auto
  qed
  have window: "bit_at bv' p = bit_at bv p"
    if "p_startIndex s \<le> p_index s \<and> p_index s + bits \<le> p_length s" "0 \<le> p"
      "\<not> (p_startIndex s \<le> p \<and> p < p_length s)" for p
    using that by (intro fr(3)) auto
  have main: "length (view (fst (snd (writeBits v bits h s)) (p_view s))) = length (view (h (p_view s)))
    \<and> bigEndian (fst (snd (writeBits v bits h s)) (p_view s)) = bigEndian (h (p_view s))
    \<and> (\<forall>p\<ge>0. \<not> (p_index s \<le> p \<and> p < p_index s + bits)
           \<longrightarrow> bit_at (fst (snd (writeBits v bits h s)) (p_view s)) p = bit_at (h (p_view s)) p)
    \<and> (\<forall>k. 8 * int k + 8 \<le> p_index s \<or> p_index s + bits \<le> 8 * int k
           \<longrightarrow> view (fst (snd (writeBits v bits h s)) (p_view s)) ! k = view (h (p_view s)) ! k)
    \<and> (p_startIndex s \<le> p_index s \<and> p_index s + bits \<le> p_length s
           \<longrightarrow> (\<forall>p\<ge>0. \<not> (p_startIndex s \<le> p \<and> p < p_length s)
                  \<longrightarrow> bit_at (fst (snd (writeBits v bits h s)) (p_view s)) p
                      = bit_at (h (p_view s)) p))"
    unfolding res fun_upd_same bv_def [symmetric]
    using fr bytes window by simp
  have table: "writeBoolean b = writeBits (if b then 1 else 0) 1
    \<and> writeInt8 v = writeBits v 8 \<and> writeInt16 v = writeBits v 16 \<and> writeInt32 v = writeBits v 32
    \<and> writeUint8 v = writeBits v 8 \<and> writeUint16 v = writeBits v 16
    \<and> writeUint32 v = writeBits v 32
    \<and> writeFloat32 f = writeBits (dv_getUint32 (dv_setFloat32 scratch0 0 f) 0) 32"
    by (simp only: typed_writer_is_writeBits writeFloat32_is_writeBits simp_thms)
  have f64: "(p_index s + 64 \<le> 2 ^ 31
           \<longrightarrow> length (view (fst (snd (writeFloat64 d h s)) (p_view s))) = length (view (h (p_view s)))
               \<and> bigEndian (fst (snd (writeFloat64 d h s)) (p_view s)) = bigEndian (h (p_view s))
               \<and> (\<forall>p\<ge>0. \<not> (p_index s \<le> p \<and> p < p_index s + 64)
                      \<longrightarrow> bit_at (fst (snd (writeFloat64 d h s)) (p_view s)) p = bit_at (h (p_view s)) p)
               \<and> (\<forall>k. 8 * int k + 8 \<le> p_index s \<or> p_index s + 64 \<le> 8 * int k
                      \<longrightarrow> view (fst (snd (writeFloat64 d h s)) (p_view s)) ! k = view (h (p_view s)) ! k)
               \<and> (p_startIndex s \<le> p_index s \<and> p_index s + 64 \<le> p_length s
                      \<longrightarrow> (\<forall>p\<ge>0. \<not> (p_startIndex s \<le> p \<and> p < p_length s)
                             \<longrightarrow> bit_at (fst (snd (writeFloat64 d h s)) (p_view s)) p
                                 = bit_at (h (p_view s)) p)))"
  proof (intro impI)
    assume b: "p_index s + 64 \<le> 2 ^ 31"
    define bd where "bd = snd (setFloat64 bv (p_index s) d)"
    note fd = setFloat64_frame [OF assms(1) b, where bv = bv and d = d, folded bd_def]
    have resd: "fst (snd (writeFloat64 d h s)) = h(p_view s := bd)"
      by (simp add: writeFloat64_def writer_heap bd_def bv_def)
    have bytesd: "view bd ! k = view bv ! k"
      if "8 * int k + 8 \<le> p_index s \<or> p_index s + 64 \<le> 8 * int k" for k
    proof (rule byte_unchanged [OF fd(2)])
      fix p
      assume "8 * int k \<le> p" "p < 8 * int k + 8"
      with that show "bit_at bd p = bit_at bv p"
        by (intro fd(3)) auto
    qed
    have windowd: "bit_at bd p = bit_at bv p"
      if "p_startIndex s \<le> p_index s \<and> p_index s + 64 \<le> p_length s" "0 \<le> p"
        "\<not> (p_startIndex s \<le> p \<and> p < p_length s)" for p
      using that by (intro fd(3)) auto
    show "length (view (fst (snd (writeFloat64 d h s)) (p_view s))) = length (view (h (p_view s)))
               \<and> bigEndian (fst (snd (writeFloat64 d h s)) (p_view s)) = bigEndian (h (p_view s))
               \<and> (\<forall>p\<ge>0. \<not> (p_index s \<le> p \<and> p < p_index s + 64)
                      \<longrightarrow> bit_at (fst (snd (writeFloat64 d h s)) (p_view s)) p = bit_at (h (p_view s)) p)
               \<and> (\<forall>k. 8 * int k + 8 \<le> p_index s \<or> p_index s + 64 \<le> 8 * int k
                      \<longrightarrow> view (fst (snd (writeFloat64 d h s)) (p_view s)) ! k = view (h (p_view s)) ! k)
               \<and> (p_startIndex s \<le> p_index s \<and> p_index s + 64 \<le> p_length s
                      \<longrightarrow> (\<forall>p\<ge>0. \<not> (p_startIndex s \<le> p \<and> p < p_length s)
                             \<longrightarrow> bit_at (fst (snd (writeFloat64 d h s)) (p_view s)) p
                                 = bit_at (h (p_view s)) p))"
      unfolding resd fun_upd_same bv_def [symmetric]
      using fd bytesd windowd by simp
  qed
  from main table f64 show ?thesis
    by (elim conjE) (intro conjI; assumption)
qed

theorem substream_write_frame_witness:
  "0 \<le> p_index \<lparr>p_view = 0, p_startIndex = 0, p_length = 8, p_index = 0\<rparr>
   \<and> p_index \<lparr>p_view = 0, p_startIndex = 0, p_length = 8, p_index = 0\<rparr> + 8 \<le> 2 ^ 31
   \<and> (8 * int 1 + 8 \<le> p_index \<lparr>p_view = 0, p_startIndex = 0, p_length = 8, p_index = 0\<rparr>
        \<or> p_index \<lparr>p_view = 0, p_startIndex = 0, p_length = 8, p_index = 0\<rparr> + 8 \<le> 8 * int 1)
   \<and> view (fst (snd (writeBits 0xFF 8 (\<lambda>r. \<lparr>view = [0x00, 0x00], bigEndian = False\<rparr>)
                        \<lparr>p_view = 0, p_startIndex = 0, p_length = 8, p_index = 0\<rparr>))
               (p_view \<lparr>p_view = 0, p_startIndex = 0, p_length = 8, p_index = 0\<rparr>)) ! 1
       = view ((\<lambda>r. \<lparr>view = [0x00, 0x00], bigEndian = False\<rparr>)
               (p_view \<lparr>p_view = 0, p_startIndex = 0, p_length = 8, p_index = 0\<rparr>)) ! 1"
proof -
  have h: "0 \<le> p_index \<lparr>p_view = 0, p_startIndex = 0, p_length = 8, p_index = 0\<rparr>"
    "p_index \<lparr>p_view = 0, p_startIndex = 0, p_length = 8, p_index = 0\<rparr> + 8 \<le> 2 ^ 31"
    by simp_all
  have k: "8 * int 1 + 8 \<le> p_index \<lparr>p_view = 0, p_startIndex = 0, p_length = 8, p_index = 0\<rparr>
        \<or> p_index \<lparr>p_view = 0, p_startIndex = 0, p_length = 8, p_index = 0\<rparr> + 8 \<le> 8 * int 1"
    by simp
  note t = substream_write_frame [OF h, where v = "0xFF"
      and h = "(\<lambda>r. \<lparr>view = [0x00, 0x00], bigEndian = False\<rparr>)" and b = True and f = 0 and d = 0]
  note r = t [THEN conjunct2, THEN conjunct2, THEN conjunct2, THEN conjunct1,
      THEN spec, of 1, THEN mp, OF k]
  show ?thesis
    by (intro conjI h k r)
qed

section \<open>Fixed-length string reads\<close>

text \<open>
  The codec's fixed-length mode itself consumes exactly the given number of bytes,
  whatever they are: with \<open>bytes = n > 0\<close> in the codec's last parameter and \<open>n\<close> bytes
  left in both the window and the buffer, \<open>readASCIIString\<close> succeeds and leaves the
  index \<open>8 * n\<close> bits further.
\<close>

lemma readUint8_ok:
  assumes "p_index s + 8 \<le> p_length s" "p_index s + 8 \<le> byteLength (h (p_view s)) * 8"
  shows "\<exists>c. readUint8 h s = (Inr c, s\<lparr>p_index := p_index s + 8\<rparr>)"
  using assms
  by (simp add: readUint8_def reader_def getUint8_def getBits_def byteLength_def Let_def)

lemma readString_loop_fixed:
  assumes "i \<le> n" "p_index s + 8 * (n - i) \<le> p_length s"
    "p_index s + 8 * (n - i) \<le> byteLength (h (p_view s)) * 8"
  shows "\<exists>chars'. readString_loop h True n s i app chars
           = (Inr chars', s\<lparr>p_index := p_index s + 8 * (n - i)\<rparr>)"
  using assms
proof (induction "nat (n - i)" arbitrary: i s app chars rule: less_induct)
  case less
  show ?case
  proof (cases "i < n")
    case False
    with less.prems(1) have "i = n"
      by simp
    then show ?thesis
      by (subst readString_loop.simps) simp
  next
    case True
    from readUint8_ok [of s h] less.prems(2,3) True
    obtain c where c: "readUint8 h s = (Inr c, s\<lparr>p_index := p_index s + 8\<rparr>)"
      by auto
    define s1 where "s1 = s\<lparr>p_index := p_index s + 8\<rparr>"
    have m: "nat (n - (i + 1)) < nat (n - i)"
      using True by simp
    have pre: "i + 1 \<le> n" "p_index s1 + 8 * (n - (i + 1)) \<le> p_length s1"
      "p_index s1 + 8 * (n - (i + 1)) \<le> byteLength (h (p_view s1)) * 8"
      using True less.prems by (simp_all add: s1_def)
    have e: "s1\<lparr>p_index := p_index s1 + 8 * (n - (i + 1))\<rparr> = s\<lparr>p_index := p_index s + 8 * (n - i)\<rparr>"
      by (simp add: s1_def algebra_simps)
    from less.hyps [OF m pre, unfolded e]
    have IH: "\<exists>chars'. readString_loop h True n s1 (i + 1) app' chars0
           = (Inr chars', s\<lparr>p_index := p_index s + 8 * (n - i)\<rparr>)" for app' chars0
      by blast
    show ?thesis
      using True IH by (subst readString_loop.simps) (simp add: c s1_def [symmetric])
  qed
qed

lemma readString_fixed_consumes:
  assumes "0 < n" "p_index s + 8 * n \<le> p_length s" "p_index s + 8 * n \<le> byteLength (h (p_view s)) * 8"
  shows "\<exists>str. readASCIIString decode h s len index (Some n)
           = (Inr str, s\<lparr>p_index := p_index s + 8 * n\<rparr>)"
proof -
  from readString_loop_fixed [of 0 n s h True "[]"] assms
  obtain chars' where "readString_loop h True n s 0 True [] = (Inr chars', s\<lparr>p_index := p_index s + 8 * n\<rparr>)"
    by auto
  with assms(1) show ?thesis
    by (simp add: readASCIIString_def readString_def Let_def)
qed

text \<open>
  Claim C7 at its failing input. The cursor's method \<open>readASCIIString(n)\<close> calls the
  codec as \<open>readASCIIString(this, n)\<close>, so \<open>n\<close> arrives as the codec's \<open>length\<close> and
  its \<open>index\<close> and \<open>bytes\<close> are undefined: the loop bound is NaN, no byte is read, the
  result is the empty string and the index does not move. On a cursor over the bytes
  \<open>[0x41, 0x42, 0x43]\<close>, \<open>readASCIIString(2)\<close> returns the empty string and leaves the
  index at 0.
\<close>

theorem BitStream_readASCIIString_reads_nothing:
  "BitStream_readASCIIString decode n h s = (Inr [], s)
   \<and> get_index (snd (BitStream_readASCIIString decode n h s)) = get_index s
   \<and> BitStream_readASCIIString decode 2
         (\<lambda>r. \<lparr>view = [0x41, 0x42, 0x43], bigEndian = False\<rparr>)
         \<lparr>p_view = 0, p_startIndex = 0, p_length = 24, p_index = 0\<rparr>
       = (Inr [], \<lparr>p_view = 0, p_startIndex = 0, p_length = 24, p_index = 0\<rparr>)"
  by (simp add: BitStream_readASCIIString_def readASCIIString_def readString_def fromCharCode_def)

section \<open>64-bit floats\<close>

text \<open>
  Claim C8 at its failing input. \<open>setFloat64\<close> writes both 32-bit halves of the
  pattern at \<open>offset\<close>, the second over the first, and nothing at \<open>offset + 32\<close>. On
  eight zero bytes in little-endian mode, writing the pattern of 1.0,
  \<open>0x3FF0000000000000\<close>, leaves the buffer zero and \<open>getFloat64\<close> returns the pattern
  of 0.0. In big-endian mode, writing \<open>0x3FF0000000000001\<close> leaves only the low word
  in the first four bytes, and \<open>getFloat64\<close> returns \<open>0x0000000100000000\<close>.
\<close>

theorem setFloat64_overwrites_high_word:
  "(case setFloat64 \<lparr>view = [0, 0, 0, 0, 0, 0, 0, 0], bigEndian = False\<rparr> 0 0x3FF0000000000000 of
      (r, bv') \<Rightarrow>
        r = Inr () \<and> view bv' = [0, 0, 0, 0, 0, 0, 0, 0]
        \<and> getFloat64 bv' 0 = Inr 0)
   \<and> (case setFloat64 \<lparr>view = [0, 0, 0, 0, 0, 0, 0, 0], bigEndian = True\<rparr> 0 0x3FF0000000000001 of
      (r, bv') \<Rightarrow>
        r = Inr () \<and> view bv' = [0, 0, 0, 1, 0, 0, 0, 0]
        \<and> getFloat64 bv' 0 = Inr 0x0000000100000000)"
  by code_simp

section \<open>String writers with a byte count of zero\<close>

lemma writeASCIIString_loop_each:
  assumes "0 \<le> i" "i \<le> len" "len = int (length string) + 1"
  shows "writeASCIIString_loop string len i h stream
         = writeUint8_each (drop (nat i) (map uint string @ [0])) h stream"
  using assms
proof (induction "nat (len - i)" arbitrary: i h stream rule: less_induct)
  case less
  define bytes where "bytes = map uint string @ [0]"
  have len: "int (length bytes) = len"
    using less.prems(3) by (simp add: bytes_def)
  show ?case
  proof (cases "i < len")
    case False
    with less.prems(2) have "i = len"
      by simp
    then have "drop (nat i) bytes = []"
      using len by simp
    with False show ?thesis
      by (subst writeASCIIString_loop.simps) (simp add: bytes_def)
  next
    case True
    then have n: "nat i < length bytes"
      using len less.prems(1) by linarith
    have b: "(if i < int (length string) then charCodeAt string i else 0) = bytes ! nat i"
      using less.prems(1,3) True by (auto simp: bytes_def charCodeAt_def nth_append)
    have d: "drop (nat i) bytes = bytes ! nat i # drop (nat (i + 1)) bytes"
      using n less.prems(1) by (simp add: Cons_nth_drop_Suc nat_add_distrib)
    have m: "nat (len - (i + 1)) < nat (len - i)"
      using True by simp
    have IH: "writeASCIIString_loop string len (i + 1) h' stream'
         = writeUint8_each (drop (nat (i + 1)) bytes) h' stream'" for h' stream'
      unfolding bytes_def using less.prems True by (intro less.hyps [OF m]) simp_all
    show ?thesis
      unfolding bytes_def [symmetric] d
      using True by (subst writeASCIIString_loop.simps) (simp add: b IH split: prod.split sum.split)
  qed
qed

lemma writeUTF8String_loop_each:
  assumes "0 \<le> i" "i \<le> len" "len = int (length byteArray) + 1"
  shows "writeUTF8String_loop byteArray len i h stream
         = writeUint8_each (drop (nat i) (byteArray @ [0])) h stream"
  using assms
proof (induction "nat (len - i)" arbitrary: i h stream rule: less_induct)
  case less
  define bytes where "bytes = byteArray @ [0]"
  have len: "int (length bytes) = len"
    using less.prems(3) by (simp add: bytes_def)
  show ?case
  proof (cases "i < len")
    case False
    with less.prems(2) have "i = len"
      by simp
    then have "drop (nat i) bytes = []"
      using len by simp
    with False show ?thesis
      by (subst writeUTF8String_loop.simps) (simp add: bytes_def)
  next
    case True
    then have n: "nat i < length bytes"
      using len less.prems(1) by linarith
    have b: "(if i < int (length byteArray) then byteArray ! nat i else 0) = bytes ! nat i"
      using less.prems(1,3) True by (auto simp: bytes_def nth_append)
    have d: "drop (nat i) bytes = bytes ! nat i # drop (nat (i + 1)) bytes"
      using n less.prems(1) by (simp add: Cons_nth_drop_Suc nat_add_distrib)
    have m: "nat (len - (i + 1)) < nat (len - i)"
      using True by simp
    have IH: "writeUTF8String_loop byteArray len (i + 1) h' stream'
         = writeUint8_each (drop (nat (i + 1)) bytes) h' stream'" for h' stream'
      unfolding bytes_def using less.prems True by (intro less.hyps [OF m]) simp_all
    show ?thesis
      unfolding bytes_def [symmetric] d
      using True by (subst writeUTF8String_loop.simps) (simp add: b IH split: prod.split sum.split)
  qed
qed

lemma writeUint8_each_advance:
  "fst (writeUint8_each bs h stream) = Inr ()
   \<Longrightarrow> p_index (snd (snd (writeUint8_each bs h stream))) = p_index stream + 8 * int (length bs)"
proof (induction bs arbitrary: h stream)
  case Nil
  then show ?case
    by simp
next
  case (Cons b bs)
  obtain r h' stream' where w: "writeUint8 b h stream = (r, h', stream')"
    by (cases "writeUint8 b h stream") auto
  show ?case
  proof (cases r)
    case (Inl e)
    with Cons.prems w show ?thesis
      by simp
  next
    case (Inr u)
    with w have "p_index stream' = p_index stream + 8"
      by (auto simp: writeUint8_def writer_def split: prod.splits sum.splits)
    moreover from Cons.prems w Inr have "fst (writeUint8_each bs h' stream') = Inr ()"
      by simp
    ultimately show ?thesis
      using Cons.IH [of h' stream'] w Inr by simp
  qed
qed

text \<open>
  Claim C10. For every string, \<open>writeASCIIString\<close> and \<open>writeUTF8String\<close> with a fixed
  byte count of 0 behave exactly like the call without a byte count: they write the
  encoded string followed by one \<open>0x00\<close> byte, which in the ASCII case is the string's
  length plus one bytes: a successful call leaves the index that many bytes further.
\<close>

theorem writeString_zero_bytes_is_terminated:
  "writeASCIIString h stream string (Some 0) = writeASCIIString h stream string None
   \<and> writeASCIIString h stream string (Some 0)
       = writeUint8_each (map uint string @ [0x00]) h stream
   \<and> length (map uint string @ [0x00 :: int]) = length string + 1
   \<and> writeUTF8String h stream string (Some 0) = writeUTF8String h stream string None
   \<and> writeUTF8String h stream string (Some 0)
       = writeUint8_each (stringToByteArray string @ [0x00]) h stream
   \<and> BitStream_writeASCIIString string (Some 0) h stream
       = writeUint8_each (map uint string @ [0x00]) h stream
   \<and> BitStream_writeUTF8String string (Some 0) h stream
       = writeUint8_each (stringToByteArray string @ [0x00]) h stream
   \<and> (fst (writeASCIIString h stream string (Some 0)) = Inr ()
        \<longrightarrow> p_index (snd (snd (writeASCIIString h stream string (Some 0))))
            = p_index stream + 8 * (int (length string) + 1))"
proof -
  have a: "writeASCIIString h stream string (Some 0)
       = writeUint8_each (map uint string @ [0x00]) h stream"
    using writeASCIIString_loop_each [of 0 "int (length string) + 1" string h stream]
    by (simp add: writeASCIIString_def)
  have u: "writeUTF8String h stream string (Some 0)
       = writeUint8_each (stringToByteArray string @ [0x00]) h stream"
    using writeUTF8String_loop_each [of 0 "int (length (stringToByteArray string)) + 1"
        "stringToByteArray string" h stream]
    by (simp add: writeUTF8String_def Let_def)
  have a0: "writeASCIIString h stream string (Some 0) = writeASCIIString h stream string None"
    by (simp add: writeASCIIString_def)
  have u0: "writeUTF8String h stream string (Some 0) = writeUTF8String h stream string None"
    by (simp add: writeUTF8String_def)
  have n: "length (map uint string @ [0x00 :: int]) = length string + 1"
    by simp
  have adv: "fst (writeASCIIString h stream string (Some 0)) = Inr ()
        \<longrightarrow> p_index (snd (snd (writeASCIIString h stream string (Some 0))))
            = p_index stream + 8 * (int (length string) + 1)"
    unfolding a using writeUint8_each_advance [of "map uint string @ [0x00]" h stream] by simp
  show ?thesis
    unfolding BitStream_writeASCIIString_def BitStream_writeUTF8String_def
    by (intro conjI a0 a n u0 u adv)
qed

theorem writeString_zero_bytes_is_terminated_witness:
  "fst (writeASCIIString (\<lambda>r. \<lparr>view = [0xFF, 0xFF, 0xFF], bigEndian = False\<rparr>)
          \<lparr>p_view = 0, p_startIndex = 0, p_length = 24, p_index = 0\<rparr> [0x41, 0x42] (Some 0))
     = Inr ()
   \<and> p_index (snd (snd (writeASCIIString (\<lambda>r. \<lparr>view = [0xFF, 0xFF, 0xFF], bigEndian = False\<rparr>)
          \<lparr>p_view = 0, p_startIndex = 0, p_length = 24, p_index = 0\<rparr> [0x41, 0x42] (Some 0))))
       = p_index \<lparr>p_view = 0, p_startIndex = 0, p_length = 24, p_index = 0\<rparr>
         + 8 * (int (length [0x41, 0x42 :: 16 word]) + 1)"
proof -
  have ok: "fst (writeASCIIString (\<lambda>r. \<lparr>view = [0xFF, 0xFF, 0xFF], bigEndian = False\<rparr>)
          \<lparr>p_view = 0, p_startIndex = 0, p_length = 24, p_index = 0\<rparr> [0x41, 0x42] (Some 0))
     = Inr ()"
    by code_simp
  note t = writeString_zero_bytes_is_terminated
    [where h = "\<lambda>r. \<lparr>view = [0xFF, 0xFF, 0xFF], bigEndian = False\<rparr>"
      and stream = "\<lparr>p_view = 0, p_startIndex = 0, p_length = 24, p_index = 0\<rparr>"
      and string = "[0x41, 0x42]"]
  note r = t [THEN conjunct2, THEN conjunct2, THEN conjunct2, THEN conjunct2, THEN conjunct2,
      THEN conjunct2, THEN conjunct2, THEN mp, OF ok]
  show ?thesis
    by (intro conjI ok r)
qed

end
